theory Spec2Isabelle
  imports Complex_Main
begin


section \<open>Exceptions and Python numbers\<close>

text \<open>
  Every \<open>raise\<close> of the Python sources, and every failure of a library call, is a value
  of \<open>exn\<close>; a computation that may raise returns \<open>exn + 'a\<close>, with \<open>Inl\<close> the
  exception. \<open>LibError\<close> stands for whatever PyMuPDF, pdf2image or Pillow raise on bad
  input; the message is the one the library gives.
\<close>

datatype exn =
    KeyError string
  | IndexError string
  | AttributeError string
  | NameError string
  | ValueError string
  | ZeroDivisionError string
  | LibError string

text \<open>\<open>str(e)\<close>, as the error reports print it.\<close>

fun str_exn :: "exn \<Rightarrow> string" where
  "str_exn (KeyError k) = [CHR 0x27] @ k @ [CHR 0x27]"
| "str_exn (IndexError m) = m"
| "str_exn (AttributeError m) = m"
| "str_exn (NameError m) = m"
| "str_exn (ValueError m) = m"
| "str_exn (ZeroDivisionError m) = m"
| "str_exn (LibError m) = m"

text \<open>
  A Python \<open>float\<close> is modelled by the rational number it denotes. A decimal literal,
  a quotient or a product denotes the double nearest to its exact value, which
  \<open>round_double\<close> computes: 53 significant bits, ties to the even significand (the
  numbers of these programs are far from the overflow and subnormal ranges, which are
  not modelled).
\<close>

type_synonym pyfloat = rat

text \<open>\<open>n.bit_length()\<close> for \<open>n \<ge> 0\<close>.\<close>

function bit_length :: "int \<Rightarrow> int" where
  "bit_length n = (if n \<le> 0 then 0 else 1 + bit_length (n div 2))"
  by pat_completeness auto
termination
  by (relation "measure nat") auto

declare bit_length.simps [simp del]

definition pow2 :: "int \<Rightarrow> rat" where
  "pow2 k = (if 0 \<le> k then 2 ^ nat k else 1 / 2 ^ nat (- k))"

text \<open>For \<open>x > 0\<close>, the exponent \<open>e\<close> with \<open>2^e \<le> x < 2^(e+1)\<close>.\<close>

definition binary_exponent :: "rat \<Rightarrow> int" where
  "binary_exponent x =
     (let k = bit_length (fst (quotient_of x)) - bit_length (snd (quotient_of x))
      in if pow2 k \<le> x then k else k - 1)"

definition round_half_even :: "rat \<Rightarrow> int" where
  "round_half_even y =
     (let f = \<lfloor>y\<rfloor>; r = y - of_int f
      in if r < 1 / 2 then f else if 1 / 2 < r then f + 1
         else if even f then f else f + 1)"

definition round_double :: "rat \<Rightarrow> pyfloat" where
  "round_double x =
     (if x = 0 then 0
      else
        let e = binary_exponent \<bar>x\<bar> - 52;
            m = round_half_even (\<bar>x\<bar> / pow2 e)
        in sgn x * of_int m * pow2 e)"

text \<open>\<open>int(n * z)\<close> for an integer \<open>n \<ge> 0\<close> and a float \<open>z \<ge> 0\<close>: \<open>n\<close> is converted to a
  double, the product is rounded to a double, and \<open>int\<close> drops the fraction.\<close>

definition double_mul_int :: "nat \<Rightarrow> pyfloat \<Rightarrow> nat" where
  "double_mul_int n z = nat \<lfloor>round_double (round_double (of_nat n) * round_double z)\<rfloor>"

text \<open>\<open>str(n)\<close> for a non-negative integer: its decimal digits.\<close>

definition digit_char :: "nat \<Rightarrow> char" where
  "digit_char d = char_of (48 + d)"

function str_nat :: "nat \<Rightarrow> string" where
  "str_nat n = (if n < 10 then [digit_char n] else str_nat (n div 10) @ [digit_char (n mod 10)])"
  by pat_completeness auto
termination
  by (relation "measure id") auto

declare str_nat.simps [simp del]

text \<open>
  A \<open>for\<close> loop whose body may raise: the body threads the loop's variables through
  the items in order, and the first exception ends the loop.
\<close>

fun for_loop :: "('a \<Rightarrow> 's \<Rightarrow> exn + 's) \<Rightarrow> 'a list \<Rightarrow> 's \<Rightarrow> exn + 's" where
  "for_loop body [] s = Inr s"
| "for_loop body (x # xs) s =
     (case body x s of Inl e \<Rightarrow> Inl e | Inr s' \<Rightarrow> for_loop body xs s')"

text \<open>\<open>range(i, stop, step)\<close> for a positive step; Python raises \<open>ValueError\<close> on
  step zero, which the callers below check before they iterate.\<close>

function range_from :: "nat \<Rightarrow> nat \<Rightarrow> nat \<Rightarrow> nat list" where
  "range_from i stop step =
     (if step = 0 \<or> stop \<le> i then [] else i # range_from (i + step) stop step)"
  by pat_completeness auto
termination
  by (relation "measure (\<lambda>(i, stop, step). stop - i)") auto

declare range_from.simps [simp del]

section \<open>Quality policy\<close>

text \<open>The options of both \<open>st.select_slider\<close> widgets, lowest quality first
  (\<^verbatim>\<open>anthropic_ocr.py\<close>, \<open>main\<close>).\<close>

definition quality_options :: "string list" where
  "quality_options = [''Very Low'', ''Low'', ''Medium'', ''High'', ''Very High'']"

text \<open>\<^verbatim>\<open>anthropic_ocr.py\<close>: \<open>get_zoom_factor\<close>. The dictionary is an association list in
  source order; \<open>quality_map[quality]\<close> raises \<open>KeyError\<close> on a missing key.\<close>

definition zoom_quality_map :: "(string \<times> pyfloat) list" where
  "zoom_quality_map =
     [(''Very High'', 1), (''High'', 7 / 10), (''Medium'', 45 / 100),
      (''Low'', 3 / 10), (''Very Low'', 2 / 10)]"

definition get_zoom_factor :: "string \<Rightarrow> exn + pyfloat" where
  "get_zoom_factor quality =
     (case map_of zoom_quality_map quality of
        None \<Rightarrow> Inl (KeyError quality)
      | Some z \<Rightarrow> Inr z)"

text \<open>\<^verbatim>\<open>new_test/fix_rgba_filedata_error.py\<close>: \<open>get_zoom_factor\<close>, the coarser table.\<close>

definition zoom_quality_map_fix :: "(string \<times> pyfloat) list" where
  "zoom_quality_map_fix =
     [(''Very High'', 1), (''High'', 5 / 10), (''Medium'', 33 / 100),
      (''Low'', 25 / 100), (''Very Low'', 1 / 6)]"

definition get_zoom_factor_fix :: "string \<Rightarrow> exn + pyfloat" where
  "get_zoom_factor_fix quality =
     (case map_of zoom_quality_map_fix quality of
        None \<Rightarrow> Inl (KeyError quality)
      | Some z \<Rightarrow> Inr z)"

text \<open>\<^verbatim>\<open>anthropic_ocr.py\<close>: \<open>get_pages_per_image\<close>, keyed by the same strings.\<close>

definition pages_quality_map :: "(string \<times> nat) list" where
  "pages_quality_map =
     [(''Very High'', 1), (''High'', 2), (''Medium'', 4), (''Low'', 6), (''Very Low'', 8)]"

definition get_pages_per_image :: "string \<Rightarrow> exn + nat" where
  "get_pages_per_image pdf_quality =
     (case map_of pages_quality_map pdf_quality of
        None \<Rightarrow> Inl (KeyError pdf_quality)
      | Some n \<Rightarrow> Inr n)"

text \<open>\<^verbatim>\<open>testing/img_pdf_v2.py\<close> and \<^verbatim>\<open>testing/st_img_4o_pdf.py\<close>: \<open>get_pages_per_image\<close>
  on integer tiers. \<open>pages_map.get(quality_level, 1)\<close> never raises.\<close>

definition pages_map :: "(int \<times> nat) list" where
  "pages_map = [(5, 1), (4, 2), (3, 4), (2, 6), (1, 8)]"

definition get_pages_per_image_tier :: "int \<Rightarrow> nat" where
  "get_pages_per_image_tier quality_level =
     (case map_of pages_map quality_level of None \<Rightarrow> 1 | Some n \<Rightarrow> n)"

section \<open>Raster images and the imaging library\<close>

text \<open>
  A Pillow image: its mode string, its size, its pixels and whether its \<open>info\<close>
  dictionary has a \<open>transparency\<close> entry. A pixel is the list of its band values, so an
  \<open>RGBA\<close> or \<open>LA\<close> pixel ends with its alpha value. \<open>pixel_at im x y\<close> is meaningful for
  \<open>x < width im\<close> and \<open>y < height im\<close> only; the properties below never look elsewhere.
\<close>

type_synonym pixel = "nat list"

record image =
  mode :: string
  width :: nat
  height :: nat
  pixel_at :: "nat \<Rightarrow> nat \<Rightarrow> pixel"
  transparency :: bool

definition white :: pixel where
  "white = [255, 255, 255]"

text \<open>
  What the sources take from Pillow and PyMuPDF without defining it. The pixel
  arithmetic of mode conversion, of blending under a mask and of Lanczos resampling, the
  inputs that \<open>resize\<close> and the JPEG encoder reject, and the products \<open>int(n * z)\<close> on the
  sides of a PyMuPDF rectangle in \<^verbatim>\<open>img_pdf_v2.py\<close> (\<open>float_mul_int\<close>) are parameters of the
  model: no property below depends on how they are chosen.
\<close>

record pil =
  convert_pixel :: "image \<Rightarrow> string \<Rightarrow> nat \<Rightarrow> nat \<Rightarrow> pixel"
  convert_info :: "image \<Rightarrow> string \<Rightarrow> bool"
  blend_pixel :: "nat \<Rightarrow> pixel \<Rightarrow> pixel \<Rightarrow> pixel"
  resample_pixel :: "image \<Rightarrow> nat \<times> nat \<Rightarrow> nat \<Rightarrow> nat \<Rightarrow> pixel"
  resize_accepts :: "image \<Rightarrow> nat \<times> nat \<Rightarrow> bool"
  float_mul_int :: "nat \<Rightarrow> pyfloat \<Rightarrow> nat"
  jpeg_accepts :: "image \<Rightarrow> bool"

text \<open>\<open>Image.new(mode, size, color)\<close>: a canvas of one colour.\<close>

definition Image_new :: "string \<Rightarrow> nat \<times> nat \<Rightarrow> pixel \<Rightarrow> image" where
  "Image_new m sz color =
     \<lparr>mode = m, width = fst sz, height = snd sz,
      pixel_at = (\<lambda>x y. color), transparency = False\<rparr>"

text \<open>\<open>im.convert(m)\<close>: same size, mode \<open>m\<close>.\<close>

definition convert :: "pil \<Rightarrow> image \<Rightarrow> string \<Rightarrow> image" where
  "convert lib im m =
     \<lparr>mode = m, width = width im, height = height im,
      pixel_at = convert_pixel lib im m, transparency = convert_info lib im m\<rparr>"

text \<open>\<open>im.split()[-1]\<close>: the last band as an \<open>L\<close> image.\<close>

definition split_last :: "image \<Rightarrow> image" where
  "split_last im =
     \<lparr>mode = ''L'', width = width im, height = height im,
      pixel_at = (\<lambda>x y. [last (pixel_at im x y)]), transparency = False\<rparr>"

text \<open>The pixels \<open>paste\<close> writes: those of \<open>im\<close>, brought to the mode of the
  destination when the modes differ.\<close>

definition source_pixel :: "pil \<Rightarrow> image \<Rightarrow> image \<Rightarrow> nat \<Rightarrow> nat \<Rightarrow> pixel" where
  "source_pixel lib dst im =
     (if mode im = mode dst then pixel_at im else convert_pixel lib im (mode dst))"

text \<open>\<open>dst.paste(im, (x0, y0))\<close>: overwrite the box of \<open>im\<close>'s size at \<open>(x0, y0)\<close>.\<close>

definition paste :: "pil \<Rightarrow> image \<Rightarrow> image \<Rightarrow> nat \<times> nat \<Rightarrow> image" where
  "paste lib dst im box =
     dst\<lparr>pixel_at := (\<lambda>x y.
        if fst box \<le> x \<and> x < fst box + width im \<and> snd box \<le> y \<and> y < snd box + height im
        then source_pixel lib dst im (x - fst box) (y - snd box)
        else pixel_at dst x y)\<rparr>"

text \<open>\<open>dst.paste(im, mask=alpha)\<close>: at the origin, each pixel blended between the
  destination and \<open>im\<close> by the mask's value there.\<close>

definition paste_mask :: "pil \<Rightarrow> image \<Rightarrow> image \<Rightarrow> image \<Rightarrow> image" where
  "paste_mask lib dst im alpha =
     dst\<lparr>pixel_at := (\<lambda>x y.
        if x < width im \<and> y < height im
        then blend_pixel lib (hd (pixel_at alpha x y)) (pixel_at dst x y)
               (source_pixel lib dst im x y)
        else pixel_at dst x y)\<rparr>"

text \<open>\<open>im.resize((w, h), Image.Resampling.LANCZOS)\<close>.\<close>

definition resize :: "pil \<Rightarrow> image \<Rightarrow> nat \<times> nat \<Rightarrow> exn + image" where
  "resize lib im sz =
     (if resize_accepts lib im sz
      then Inr \<lparr>mode = mode im, width = fst sz, height = snd sz,
                pixel_at = resample_pixel lib im sz, transparency = transparency im\<rparr>
      else Inl (LibError ''height and width must be > 0''))"

text \<open>
  A JPEG byte buffer (\<open>io.BytesIO\<close> after \<open>save\<close> and \<open>seek(0)\<close>) is determined by the
  image handed to the encoder and the quality factor, and is represented by the two.
\<close>

record jpeg =
  encoded :: image
  jpeg_quality :: nat

definition save_jpeg :: "pil \<Rightarrow> image \<Rightarrow> nat \<Rightarrow> exn + jpeg" where
  "save_jpeg lib im q =
     (if jpeg_accepts lib im then Inr \<lparr>encoded = im, jpeg_quality = q\<rparr>
      else Inl (LibError ''cannot write image as JPEG''))"

section \<open>Composite builder\<close>

text \<open>\<^verbatim>\<open>anthropic_ocr.py\<close>: the paste loop of \<open>combine_images_vertically\<close>, with its
  running \<open>y_offset\<close> and the canvas.\<close>

fun paste_images :: "pil \<Rightarrow> nat \<Rightarrow> image list \<Rightarrow> nat \<Rightarrow> image \<Rightarrow> image" where
  "paste_images lib max_width [] y_offset combined = combined"
| "paste_images lib max_width (img # imgs) y_offset combined =
     (let x_offset = (max_width - width img) div 2;
          combined = paste lib combined img (x_offset, y_offset);
          y_offset = y_offset + height img
      in paste_images lib max_width imgs y_offset combined)"

text \<open>\<^verbatim>\<open>anthropic_ocr.py\<close>: \<open>combine_images_vertically\<close>; \<open>None\<close> on the empty list.\<close>

definition combine_images_vertically :: "pil \<Rightarrow> image list \<Rightarrow> image option" where
  "combine_images_vertically lib images =
     (if images = [] then None
      else
        let total_height = sum_list (map height images);
            max_width = Max (set (map width images));
            combined = Image_new ''RGB'' (max_width, total_height) white
        in Some (paste_images lib max_width images 0 combined))"

section \<open>Documents and uploaded files\<close>

text \<open>
  What PyMuPDF gives for a page: its rectangle in points and, for a zoom factor \<open>z\<close>,
  the result of \<open>page.get_pixmap(matrix=fitz.Matrix(z, z))\<close>, a pixmap or an exception.
  A document is the list of its pages.
\<close>

record pixmap =
  pix_width :: nat
  pix_height :: nat
  samples :: "nat \<Rightarrow> nat \<Rightarrow> pixel"

record page =
  rect_width :: pyfloat
  rect_height :: pyfloat
  get_pixmap :: "pyfloat \<Rightarrow> exn + pixmap"

type_synonym document = "page list"

text \<open>
  A Streamlit upload: its name and MIME type, and what each decoder makes of its bytes:
  \<open>fitz.open(stream=..., filetype="pdf")\<close>, \<open>pdf2image.convert_from_path\<close> and
  \<open>Image.open\<close>.
\<close>

record uploaded_file =
  name :: string
  file_type :: string
  pdf_open :: "exn + document"
  pdf2image_pages :: "exn + image list"
  image_open :: "exn + image"

text \<open>\<open>pdf_document[page_num]\<close>.\<close>

definition load_page :: "document \<Rightarrow> nat \<Rightarrow> exn + page" where
  "load_page pdf_document page_num =
     (if page_num < length pdf_document then Inr (pdf_document ! page_num)
      else Inl (IndexError ''page not in document''))"

text \<open>\<open>Image.frombytes("RGB", [pix.width, pix.height], pix.samples)\<close>.\<close>

definition frombytes_RGB :: "pixmap \<Rightarrow> image" where
  "frombytes_RGB pix =
     \<lparr>mode = ''RGB'', width = pix_width pix, height = pix_height pix,
      pixel_at = samples pix, transparency = False\<rparr>"

section \<open>Document pipeline of \<^verbatim>\<open>anthropic_ocr.py\<close>\<close>

text \<open>\<open>math.ceil(total_pages / pages_per_image)\<close>. The quotient is exact in the
  rationals; the double-precision quotient has the same ceiling for every page count
  below \<open>2^53\<close>.\<close>

definition num_combined_images :: "nat \<Rightarrow> nat \<Rightarrow> exn + nat" where
  "num_combined_images total_pages pages_per_image =
     (if pages_per_image = 0 then Inl (ZeroDivisionError ''division by zero'')
      else Inr (nat \<lceil>(of_nat total_pages :: rat) / of_nat pages_per_image\<rceil>))"

text \<open>Lines 119-120: the span \<open>(start_page, end_page)\<close> of group \<open>group_idx\<close>.\<close>

definition group_bounds :: "nat \<Rightarrow> nat \<Rightarrow> nat \<Rightarrow> nat \<times> nat" where
  "group_bounds pages_per_image total_pages group_idx =
     (let start_page = group_idx * pages_per_image;
          end_page = min (start_page + pages_per_image) total_pages
      in (start_page, end_page))"

text \<open>The spans the loop \<open>for group_idx in range(num_combined_images)\<close> goes through.\<close>

definition page_groups :: "nat \<Rightarrow> nat \<Rightarrow> exn + (nat \<times> nat) list" where
  "page_groups total_pages pages_per_image =
     (case num_combined_images total_pages pages_per_image of
        Inl e \<Rightarrow> Inl e
      | Inr n \<Rightarrow> Inr (map (group_bounds pages_per_image total_pages) [0..<n]))"

text \<open>Lines 141-145: the caption of a group.\<close>

definition caption :: "string \<Rightarrow> nat \<Rightarrow> nat \<Rightarrow> string" where
  "caption file_name start_page end_page =
     (let page_range = ''Pages '' @ str_nat (start_page + 1) @ ''-'' @ str_nat end_page;
          page_range = (if end_page = start_page + 1
                        then ''Page '' @ str_nat (start_page + 1) else page_range)
      in file_name @ '' - '' @ page_range)"

text \<open>Lines 124-129: rasterise the pages of a group in order.\<close>

fun render_pages :: "document \<Rightarrow> pyfloat \<Rightarrow> nat list \<Rightarrow> image list \<Rightarrow> exn + image list" where
  "render_pages pdf_document zoom_factor [] page_images = Inr page_images"
| "render_pages pdf_document zoom_factor (page_num # rest) page_images =
     (case load_page pdf_document page_num of
        Inl e \<Rightarrow> Inl e
      | Inr page \<Rightarrow>
          (case get_pixmap page zoom_factor of
             Inl e \<Rightarrow> Inl e
           | Inr pix \<Rightarrow>
               render_pages pdf_document zoom_factor rest (page_images @ [frombytes_RGB pix])))"

text \<open>Lines 119-145: the body of the group loop. \<open>combined_image.save\<close> on \<open>None\<close> is an
  \<open>AttributeError\<close>.\<close>

definition process_group ::
  "pil \<Rightarrow> string \<Rightarrow> document \<Rightarrow> pyfloat \<Rightarrow> nat \<Rightarrow> nat \<Rightarrow>
   nat \<Rightarrow> jpeg list \<times> string list \<Rightarrow> exn + jpeg list \<times> string list" where
  "process_group lib file_name pdf_document zoom_factor pages_per_image total_pages group_idx acc =
     (let (start_page, end_page) = group_bounds pages_per_image total_pages group_idx
      in case render_pages pdf_document zoom_factor [start_page..<end_page] [] of
           Inl e \<Rightarrow> Inl e
         | Inr page_images \<Rightarrow>
             (case combine_images_vertically lib page_images of
                None \<Rightarrow> Inl (AttributeError ''NoneType object has no attribute save'')
              | Some combined_image \<Rightarrow>
                  (case save_jpeg lib combined_image 95 of
                     Inl e \<Rightarrow> Inl e
                   | Inr img_byte_arr \<Rightarrow>
                       Inr (fst acc @ [img_byte_arr],
                            snd acc @ [caption file_name start_page end_page]))))"

text \<open>Lines 110-145: the \<open>try\<close> block from the policy lookups to the end of the loop.\<close>

definition pdf_to_images_body ::
  "pil \<Rightarrow> string \<Rightarrow> document \<Rightarrow> string \<Rightarrow> string \<Rightarrow> exn + jpeg list \<times> string list" where
  "pdf_to_images_body lib file_name pdf_document quality pdf_quality =
     (case get_zoom_factor quality of
        Inl e \<Rightarrow> Inl e
      | Inr zoom_factor \<Rightarrow>
          (case get_pages_per_image pdf_quality of
             Inl e \<Rightarrow> Inl e
           | Inr pages_per_image \<Rightarrow>
               (let total_pages = length pdf_document
                in case num_combined_images total_pages pages_per_image of
                     Inl e \<Rightarrow> Inl e
                   | Inr n \<Rightarrow>
                       for_loop
                         (process_group lib file_name pdf_document zoom_factor
                            pages_per_image total_pages)
                         [0..<n] ([], []))))"

text \<open>
  The result of a conversion: the two lists returned, the messages given to \<open>st.error\<close>,
  and what has become of the document handle when the function returns.
\<close>

datatype handle_state = NotOpened | Open | Closed

record conversion =
  out_images :: "jpeg list"
  out_captions :: "string list"
  reported :: "string list"
  handle :: handle_state

text \<open>
  \<^verbatim>\<open>anthropic_ocr.py\<close>: \<open>pdf_to_images\<close>. \<open>pdf_document.close()\<close> is the last statement of
  the \<open>try\<close> block: it runs when the loop has finished, and an exception in the block goes
  to the handler, which reports it and returns two empty lists.
\<close>

definition pdf_to_images :: "pil \<Rightarrow> uploaded_file \<Rightarrow> string \<Rightarrow> string \<Rightarrow> conversion" where
  "pdf_to_images lib pdf_file quality pdf_quality =
     (case pdf_open pdf_file of
        Inl e \<Rightarrow>
          \<lparr>out_images = [], out_captions = [],
           reported = [''Error processing PDF '' @ name pdf_file @ '': '' @ str_exn e],
           handle = NotOpened\<rparr>
      | Inr pdf_document \<Rightarrow>
          (case pdf_to_images_body lib (name pdf_file) pdf_document quality pdf_quality of
             Inl e \<Rightarrow>
               \<lparr>out_images = [], out_captions = [],
                reported = [''Error processing PDF '' @ name pdf_file @ '': '' @ str_exn e],
                handle = Open\<rparr>
           | Inr (images, captions) \<Rightarrow>
               \<lparr>out_images = images, out_captions = captions, reported = [],
                handle = Closed\<rparr>))"

section \<open>Image pipeline\<close>

text \<open>The test of line 72 of \<open>process_image\<close>:
  \<open>img.mode in ('RGBA', 'LA') or (img.mode == 'P' and 'transparency' in img.info)\<close>.\<close>

definition has_alpha :: "image \<Rightarrow> bool" where
  "has_alpha img \<longleftrightarrow>
     (mode img = ''RGBA'' \<or> mode img = ''LA'') \<or> (mode img = ''P'' \<and> transparency img)"

text \<open>Lines 71-79 of \<open>process_image\<close>, the same in \<^verbatim>\<open>anthropic_ocr.py\<close> and
  \<^verbatim>\<open>fix_rgba_filedata_error.py\<close>: bring the opened image to mode \<open>RGB\<close>.\<close>

definition normalize_color :: "pil \<Rightarrow> image \<Rightarrow> image" where
  "normalize_color lib img =
     (if has_alpha img then
        (let background = Image_new ''RGB'' (width img, height img) white;
             img = (if mode img = ''P'' then convert lib img ''RGBA'' else img);
             background = paste_mask lib background img (split_last img)
         in background)
      else if mode img \<noteq> ''RGB'' then convert lib img ''RGB''
      else img)"

text \<open>\<open>process_image\<close>; the two files differ in the \<open>get_zoom_factor\<close> in scope only,
  which is the first argument here.\<close>

definition process_image_with ::
  "(string \<Rightarrow> exn + pyfloat) \<Rightarrow> pil \<Rightarrow> uploaded_file \<Rightarrow> string \<Rightarrow> exn + jpeg" where
  "process_image_with zoom_of lib image_file quality =
     (case image_open image_file of
        Inl e \<Rightarrow> Inl e
      | Inr opened \<Rightarrow>
          (let img = normalize_color lib opened
           in if quality = ''Very High'' then save_jpeg lib img 95
              else
                (case zoom_of quality of
                   Inl e \<Rightarrow> Inl e
                 | Inr zoom \<Rightarrow>
                     (let new_width = double_mul_int (width img) zoom;
                          new_height = double_mul_int (height img) zoom
                      in case resize lib img (new_width, new_height) of
                           Inl e \<Rightarrow> Inl e
                         | Inr resized_img \<Rightarrow> save_jpeg lib resized_img 95))))"

definition process_image :: "pil \<Rightarrow> uploaded_file \<Rightarrow> string \<Rightarrow> exn + jpeg" where
  "process_image = process_image_with get_zoom_factor"

definition process_image_fix :: "pil \<Rightarrow> uploaded_file \<Rightarrow> string \<Rightarrow> exn + jpeg" where
  "process_image_fix = process_image_with get_zoom_factor_fix"

section \<open>Batch loop of \<^verbatim>\<open>anthropic_ocr.py\<close>\<close>

text \<open>The part of \<open>st.session_state\<close> the upload loop of \<open>main\<close> writes, and the messages
  given to \<open>st.error\<close>.\<close>

record session =
  processed_images :: "jpeg list"
  image_captions :: "string list"
  errors :: "string list"

text \<open>Lines 277-290: one iteration of \<open>for file in uploaded_files\<close>, with its
  \<open>try\<close>/\<open>except\<close>/\<open>continue\<close>.\<close>

definition process_file :: "pil \<Rightarrow> string \<Rightarrow> string \<Rightarrow> uploaded_file \<Rightarrow> session \<Rightarrow> session" where
  "process_file lib quality pdf_quality file s =
     (if file_type file = ''application/pdf'' then
        (let r = pdf_to_images lib file quality pdf_quality
         in s\<lparr>processed_images := processed_images s @ out_images r,
               image_captions := image_captions s @ out_captions r,
               errors := errors s @ reported r\<rparr>)
      else
        (case process_image lib file quality of
           Inl e \<Rightarrow>
             s\<lparr>errors := errors s @
                  [''Error processing file '' @ name file @ '': '' @ str_exn e]\<rparr>
         | Inr processed_img \<Rightarrow>
             s\<lparr>processed_images := processed_images s @ [processed_img],
               image_captions := image_captions s @ [name file]\<rparr>))"

text \<open>Lines 272-290: both lists are reset, then every upload is processed in order.\<close>

definition process_uploads :: "pil \<Rightarrow> string \<Rightarrow> string \<Rightarrow> uploaded_file list \<Rightarrow> session" where
  "process_uploads lib quality pdf_quality uploaded_files =
     fold (process_file lib quality pdf_quality) uploaded_files
       \<lparr>processed_images = [], image_captions = [], errors = []\<rparr>"

section \<open>Document pipeline of \<^verbatim>\<open>fix_rgba_filedata_error.py\<close>\<close>

text \<open>Lines 81-94: the body of \<open>for page_num in range(pdf_document.page_count)\<close>; one
  output image per page.\<close>

definition process_page_fix ::
  "pil \<Rightarrow> string \<Rightarrow> document \<Rightarrow> pyfloat \<Rightarrow> nat \<Rightarrow> jpeg list \<times> string list \<Rightarrow>
   exn + jpeg list \<times> string list" where
  "process_page_fix lib file_name pdf_document zoom_factor page_num acc =
     (case load_page pdf_document page_num of
        Inl e \<Rightarrow> Inl e
      | Inr page \<Rightarrow>
          (case get_pixmap page zoom_factor of
             Inl e \<Rightarrow> Inl e
           | Inr pix \<Rightarrow>
               (case save_jpeg lib (frombytes_RGB pix) 95 of
                  Inl e \<Rightarrow> Inl e
                | Inr img_byte_arr \<Rightarrow>
                    Inr (fst acc @ [img_byte_arr],
                         snd acc @ [file_name @ '' - Page '' @ str_nat (page_num + 1)]))))"

definition pdf_to_images_fix :: "pil \<Rightarrow> uploaded_file \<Rightarrow> string \<Rightarrow> conversion" where
  "pdf_to_images_fix lib pdf_file quality =
     (case pdf_open pdf_file of
        Inl e \<Rightarrow>
          \<lparr>out_images = [], out_captions = [],
           reported = [''Error processing PDF: '' @ str_exn e], handle = NotOpened\<rparr>
      | Inr pdf_document \<Rightarrow>
          (case (case get_zoom_factor_fix quality of
                   Inl e \<Rightarrow> Inl e
                 | Inr zoom_factor \<Rightarrow>
                     for_loop (process_page_fix lib (name pdf_file) pdf_document zoom_factor)
                       [0..<length pdf_document] ([], [])) of
             Inl e \<Rightarrow>
               \<lparr>out_images = [], out_captions = [],
                reported = [''Error processing PDF: '' @ str_exn e], handle = Open\<rparr>
           | Inr (images, captions) \<Rightarrow>
               \<lparr>out_images = images, out_captions = captions, reported = [],
                handle = Closed\<rparr>))"

section \<open>Integer-tier pipelines of \<^verbatim>\<open>testing/\<close>\<close>

text \<open>An entry of the list \<open>processed_images\<close>: the dictionary \<open>{'name': ..., 'data': ...}\<close>.\<close>

record named_jpeg =
  jpeg_name :: string
  data :: jpeg

text \<open>\<open>s.rsplit('.', 1)[0]\<close>: the part before the last dot, or all of \<open>s\<close>.\<close>

definition rsplit_dot :: "string \<Rightarrow> string" where
  "rsplit_dot s =
     (if CHR ''.'' \<in> set s then rev (tl (dropWhile (\<lambda>c. c \<noteq> CHR ''.'') (rev s))) else s)"

definition pages_filename :: "string \<Rightarrow> nat \<Rightarrow> nat \<Rightarrow> string" where
  "pages_filename file_name i end_idx =
     rsplit_dot file_name @ ''_pages_'' @ str_nat (i + 1) @ ''-'' @ str_nat end_idx @ ''.jpg''"

text \<open>
  \<^verbatim>\<open>img_pdf_v2.py\<close>, lines 44-50: the iterations of
  \<open>for i in range(0, total_pages, pages_per_image)\<close> that get past the \<open>continue\<close>, each
  as \<open>(i, end_idx)\<close>.
\<close>

definition page_sets_v2 :: "nat \<Rightarrow> nat \<Rightarrow> (nat \<times> nat) list" where
  "page_sets_v2 total_pages pages_per_image =
     filter (\<lambda>(i, end_idx).
               \<not> (end_idx - i < pages_per_image \<and> i + pages_per_image < total_pages))
       (map (\<lambda>i. (i, min (i + pages_per_image) total_pages))
          (range_from 0 total_pages pages_per_image))"

text \<open>
  \<^verbatim>\<open>img_pdf_v2.py\<close>, lines 52-73: the canvas is sized from the first page of the set
  (\<open>zoom = 2\<close>) and page \<open>j\<close> of the set is pasted at \<open>(0, j * int(rect.height * zoom))\<close>.
  \<open>rect.height * zoom\<close> doubles a double, which is exact.
\<close>

definition paste_page_v2 ::
  "pil \<Rightarrow> document \<Rightarrow> nat \<Rightarrow> nat \<times> nat \<Rightarrow> image \<Rightarrow> exn + image" where
  "paste_page_v2 lib pdf_document row_height jp combined_image =
     (case load_page pdf_document (snd jp) of
        Inl e \<Rightarrow> Inl e
      | Inr page \<Rightarrow>
          (case get_pixmap page 2 of
             Inl e \<Rightarrow> Inl e
           | Inr pix \<Rightarrow>
               Inr (paste lib combined_image (frombytes_RGB pix) (0, fst jp * row_height))))"

definition stack_pages_v2 :: "pil \<Rightarrow> document \<Rightarrow> nat \<Rightarrow> nat \<Rightarrow> exn + image" where
  "stack_pages_v2 lib pdf_document i end_idx =
     (let current_pages = end_idx - i
      in case load_page pdf_document i of
           Inl e \<Rightarrow> Inl e
         | Inr first_page \<Rightarrow>
             (let combined_width = float_mul_int lib 2 (rect_width first_page);
                  combined_height =
                    float_mul_int lib current_pages (rect_height first_page * 2);
                  combined_image =
                    Image_new ''RGB'' (combined_width, combined_height) white
              in for_loop
                   (paste_page_v2 lib pdf_document
                      (float_mul_int lib 2 (rect_height first_page)))
                   (enumerate 0 [i..<end_idx]) combined_image))"

definition process_set_v2 ::
  "pil \<Rightarrow> string \<Rightarrow> document \<Rightarrow> nat \<times> nat \<Rightarrow> named_jpeg list \<Rightarrow> exn + named_jpeg list" where
  "process_set_v2 lib file_name pdf_document ie processed =
     (case stack_pages_v2 lib pdf_document (fst ie) (snd ie) of
        Inl e \<Rightarrow> Inl e
      | Inr combined_image \<Rightarrow>
          (case save_jpeg lib combined_image 95 of
             Inl e \<Rightarrow> Inl e
           | Inr img_byte_arr \<Rightarrow>
               Inr (processed @
                    [\<lparr>jpeg_name = pages_filename file_name (fst ie) (snd ie),
                      data = img_byte_arr\<rparr>])))"

text \<open>\<^verbatim>\<open>img_pdf_v2.py\<close>: \<open>convert_pdf_to_images\<close>; the list returned and the messages
  given to \<open>st.error\<close>.\<close>

definition convert_pdf_to_images_v2 ::
  "pil \<Rightarrow> uploaded_file \<Rightarrow> int \<Rightarrow> named_jpeg list \<times> string list" where
  "convert_pdf_to_images_v2 lib pdf_file quality_level =
     (case (case pdf_open pdf_file of
              Inl e \<Rightarrow> Inl e
            | Inr pdf_document \<Rightarrow>
                (let total_pages = length pdf_document;
                     pages_per_image = get_pages_per_image_tier quality_level
                 in if pages_per_image = 0
                    then Inl (ValueError ''range() arg 3 must not be zero'')
                    else for_loop (process_set_v2 lib (name pdf_file) pdf_document)
                           (page_sets_v2 total_pages pages_per_image) [])) of
        Inl e \<Rightarrow> ([], [''Error processing PDF: '' @ str_exn e])
      | Inr processed \<Rightarrow> (processed, []))"

text \<open>
  \<^verbatim>\<open>st_img_4o_pdf.py\<close>, lines 53-55: the iterations of the same \<open>range\<close> loop whose guard
  \<open>end_idx - i == pages_per_image\<close> ("only process full sets of pages") holds.
\<close>

definition full_sets_st :: "nat \<Rightarrow> nat \<Rightarrow> (nat \<times> nat) list" where
  "full_sets_st total_pages pages_per_image =
     filter (\<lambda>(i, end_idx). end_idx - i = pages_per_image)
       (map (\<lambda>i. (i, min (i + pages_per_image) total_pages))
          (range_from 0 total_pages pages_per_image))"

text \<open>
  \<^verbatim>\<open>st_img_4o_pdf.py\<close>: \<open>convert_pdf_to_images\<close>. The file imports neither \<open>PIL.Image\<close> nor
  \<open>io\<close>, so the body of a full set raises \<open>NameError\<close> at \<open>Image.new\<close>; there is no
  \<open>try\<close> around the conversion.
\<close>

definition process_set_st :: "nat \<times> nat \<Rightarrow> named_jpeg list \<Rightarrow> exn + named_jpeg list" where
  "process_set_st ie processed = Inl (NameError ''name Image is not defined'')"

definition convert_pdf_to_images_st :: "uploaded_file \<Rightarrow> int \<Rightarrow> exn + named_jpeg list" where
  "convert_pdf_to_images_st pdf_file quality_level =
     (case pdf2image_pages pdf_file of
        Inl e \<Rightarrow> Inl e
      | Inr pdf_images \<Rightarrow>
          (let pages_per_image = get_pages_per_image_tier quality_level;
               total_pages = length pdf_images
           in if pages_per_image = 0
              then Inl (ValueError ''range() arg 3 must not be zero'')
              else for_loop process_set_st (full_sets_st total_pages pages_per_image) []))"

section \<open>Example inputs\<close>

text \<open>
  An instance of the library record for the worked examples: conversion keeps the first
  three bands, blending is the linear mix, resampling repeats the corner pixel, empty
  sizes are rejected by \<open>resize\<close> and by the encoder, and products are the
  double-precision ones.
\<close>

definition example_pil :: pil where
  "example_pil =
     \<lparr>convert_pixel = (\<lambda>im m x y. take 3 (pixel_at im x y)),
      convert_info = (\<lambda>im m. False),
      blend_pixel = (\<lambda>a d s. map2 (\<lambda>dv sv. (sv * a + dv * (255 - a)) div 255) d s),
      resample_pixel = (\<lambda>im sz x y. pixel_at im 0 0),
      resize_accepts = (\<lambda>im sz. 0 < fst sz \<and> 0 < snd sz),
      float_mul_int = double_mul_int,
      jpeg_accepts = (\<lambda>im. 0 < width im \<and> 0 < height im)\<rparr>"

text \<open>A page of \<open>w\<close> by \<open>h\<close> points that renders to a plain pixmap of the scaled size,
  and a page whose rendering raises.\<close>

definition plain_page :: "nat \<Rightarrow> nat \<Rightarrow> page" where
  "plain_page w h =
     \<lparr>rect_width = of_nat w, rect_height = of_nat h,
      get_pixmap = (\<lambda>z. Inr \<lparr>pix_width = nat \<lfloor>of_nat w * z\<rfloor>,
                              pix_height = nat \<lfloor>of_nat h * z\<rfloor>,
                              samples = (\<lambda>x y. [0, 0, 0])\<rparr>)\<rparr>"

definition broken_page :: page where
  "broken_page =
     \<lparr>rect_width = 612, rect_height = 792,
      get_pixmap = (\<lambda>z. Inl (LibError ''cannot render page''))\<rparr>"

definition plain_image :: "string \<Rightarrow> nat \<Rightarrow> nat \<Rightarrow> pixel \<Rightarrow> image" where
  "plain_image m w h p =
     \<lparr>mode = m, width = w, height = h, pixel_at = (\<lambda>x y. p), transparency = False\<rparr>"

text \<open>A PDF upload with the given pages, and an image upload.\<close>

definition pdf_upload :: "string \<Rightarrow> document \<Rightarrow> uploaded_file" where
  "pdf_upload file_name pdf_document =
     \<lparr>name = file_name, file_type = ''application/pdf'', pdf_open = Inr pdf_document,
      pdf2image_pages =
        Inr (map (\<lambda>p. plain_image ''RGB'' (nat \<lfloor>rect_width p\<rfloor>) (nat \<lfloor>rect_height p\<rfloor>)
                          [0, 0, 0]) pdf_document),
      image_open = Inl (LibError ''cannot identify image file'')\<rparr>"

definition image_upload :: "string \<Rightarrow> image \<Rightarrow> uploaded_file" where
  "image_upload file_name img =
     \<lparr>name = file_name, file_type = ''image/png'',
      pdf_open = Inl (LibError ''Failed to open stream''),
      pdf2image_pages = Inl (LibError ''Unable to get page count''),
      image_open = Inr img\<rparr>"

section \<open>Notation for the statements\<close>

text \<open>The raster of page \<open>k\<close> at zoom \<open>z\<close>, and the payload of the group of pages
  \<open>[fst se, snd se)\<close>: the composite of their rasters, encoded at quality 95.\<close>

abbreviation rendered :: "document \<Rightarrow> pyfloat \<Rightarrow> nat \<Rightarrow> image" where
  "rendered doc z k \<equiv> frombytes_RGB (projr (get_pixmap (doc ! k) z))"

abbreviation group_payload :: "pil \<Rightarrow> document \<Rightarrow> pyfloat \<Rightarrow> nat \<times> nat \<Rightarrow> jpeg" where
  "group_payload lib doc z se \<equiv>
     \<lparr>encoded = the (combine_images_vertically lib (map (rendered doc z) [fst se..<snd se])),
      jpeg_quality = 95\<rparr>"

text \<open>The entry \<^verbatim>\<open>img_pdf_v2.py\<close> appends for the set of pages \<open>[fst se, snd se)\<close>.\<close>

abbreviation set_payload :: "pil \<Rightarrow> string \<Rightarrow> document \<Rightarrow> nat \<times> nat \<Rightarrow> named_jpeg" where
  "set_payload lib file_name doc se \<equiv>
     \<lparr>jpeg_name = pages_filename file_name (fst se) (snd se),
      data = \<lparr>encoded = projr (stack_pages_v2 lib doc (fst se) (snd se)),
               jpeg_quality = 95\<rparr>\<rparr>"

section \<open>Properties of the quality policy\<close>

lemma zoom_table:
  "map get_zoom_factor quality_options =
     map Inr [2 / 10, 3 / 10, 45 / 100, 7 / 10, 1]"
  by (simp add: quality_options_def get_zoom_factor_def zoom_quality_map_def)

lemma zoom_table_fix:
  "map get_zoom_factor_fix quality_options =
     map Inr [1 / 6, 25 / 100, 33 / 100, 5 / 10, 1]"
  by (simp add: quality_options_def get_zoom_factor_fix_def zoom_quality_map_fix_def)

lemma pages_table:
  "map get_pages_per_image quality_options = map Inr [8, 6, 4, 2, 1]"
  by (simp add: quality_options_def get_pages_per_image_def pages_quality_map_def)

lemma table_lookup:
  assumes "map f quality_options = map Inr vs" and "k < length quality_options"
  shows "f (quality_options ! k) = Inr (vs ! k) \<and> k < length vs"
proof -
  have len: "length vs = length quality_options"
    using assms(1) by (metis length_map)
  have "f (quality_options ! k) = map f quality_options ! k"
    using assms(2) by simp
  also have "\<dots> = Inr (vs ! k)"
    using assms len by simp
  finally show ?thesis using len assms(2) by simp
qed

lemma sorted_table_mono:
  fixes vs :: "('a::linorder) list"
  assumes "sorted vs" and "i \<le> j" and "j < length vs"
  shows "vs ! i \<le> vs ! j"
  using assms by (rule sorted_nth_mono)

text \<open>
  C4, as amended. On each of the five quality levels the zoom lookup and the
  pages-per-image lookup return a value (no \<open>KeyError\<close>) and that value is positive.
  Going from a level to a higher one never lowers the zoom factor and never raises the
  number of pages per image. From Very Low to Very High the zoom table of
  \<^verbatim>\<open>anthropic_ocr.py\<close> is 0.2/0.3/0.45/0.7/1.0, the zoom table of
  \<^verbatim>\<open>fix_rgba_filedata_error.py\<close> is (1/6)/0.25/0.33/0.5/1.0, and the pages table is
  8/6/4/2/1.
\<close>

theorem quality_policy_monotone:
  assumes "i \<le> j" and "j < length quality_options"
  shows "\<exists>zi zj fi fj pi pj.
           get_zoom_factor (quality_options ! i) = Inr zi \<and>
           get_zoom_factor (quality_options ! j) = Inr zj \<and>
           0 < zi \<and> zi \<le> zj \<and>
           get_zoom_factor_fix (quality_options ! i) = Inr fi \<and>
           get_zoom_factor_fix (quality_options ! j) = Inr fj \<and>
           0 < fi \<and> fi \<le> fj \<and>
           get_pages_per_image (quality_options ! i) = Inr pi \<and>
           get_pages_per_image (quality_options ! j) = Inr pj \<and>
           0 < pj \<and> pj \<le> pi \<and>
           map get_zoom_factor quality_options =
             [Inr (2 / 10), Inr (3 / 10), Inr (45 / 100), Inr (7 / 10), Inr 1] \<and>
           map get_zoom_factor_fix quality_options =
             [Inr (1 / 6), Inr (25 / 100), Inr (33 / 100), Inr (5 / 10), Inr 1] \<and>
           map get_pages_per_image quality_options = [Inr 8, Inr 6, Inr 4, Inr 2, Inr 1]"
proof -
  define zs :: "pyfloat list" where "zs = [2 / 10, 3 / 10, 45 / 100, 7 / 10, 1]"
  define fs :: "pyfloat list" where "fs = [1 / 6, 25 / 100, 33 / 100, 5 / 10, 1]"
  define ps :: "nat list" where "ps = [8, 6, 4, 2, 1]"
  have i: "i < length quality_options" using assms by simp
  have zi: "get_zoom_factor (quality_options ! i) = Inr (zs ! i)"
    and zj: "get_zoom_factor (quality_options ! j) = Inr (zs ! j)" and zlen: "j < length zs"
    using table_lookup [OF zoom_table i] table_lookup [OF zoom_table assms(2)]
    by (simp_all add: zs_def)
  have fi: "get_zoom_factor_fix (quality_options ! i) = Inr (fs ! i)"
    and fj: "get_zoom_factor_fix (quality_options ! j) = Inr (fs ! j)" and flen: "j < length fs"
    using table_lookup [OF zoom_table_fix i] table_lookup [OF zoom_table_fix assms(2)]
    by (simp_all add: fs_def)
  have pi: "get_pages_per_image (quality_options ! i) = Inr (ps ! i)"
    and pj: "get_pages_per_image (quality_options ! j) = Inr (ps ! j)" and plen: "j < length ps"
    using table_lookup [OF pages_table i] table_lookup [OF pages_table assms(2)]
    by (simp_all add: ps_def)
  have "sorted zs" by (simp add: zs_def)
  then have zmono: "zs ! i \<le> zs ! j" using assms(1) zlen by (rule sorted_table_mono)
  have "\<forall>z \<in> set zs. 0 < z" by (simp add: zs_def)
  then have zpos: "0 < zs ! i" using zlen assms(1) by simp
  have "sorted fs" by (simp add: fs_def)
  then have fmono: "fs ! i \<le> fs ! j" using assms(1) flen by (rule sorted_table_mono)
  have "\<forall>z \<in> set fs. 0 < z" by (simp add: fs_def)
  then have fpos: "0 < fs ! i" using flen assms(1) by simp
  have "sorted (rev ps)" by (simp add: ps_def)
  then have "rev ps ! (length ps - Suc j) \<le> rev ps ! (length ps - Suc i)"
    using assms(1) plen by (intro sorted_nth_mono) auto
  then have pmono: "ps ! j \<le> ps ! i"
    using assms(1) plen by (simp add: rev_nth)
  have "\<forall>p \<in> set ps. 0 < p" by (simp add: ps_def)
  then have ppos: "0 < ps ! j" using plen by simp
  have tz: "map get_zoom_factor quality_options =
             [Inr (2 / 10), Inr (3 / 10), Inr (45 / 100), Inr (7 / 10), Inr 1]"
    by (simp add: zoom_table)
  have tf: "map get_zoom_factor_fix quality_options =
             [Inr (1 / 6), Inr (25 / 100), Inr (33 / 100), Inr (5 / 10), Inr 1]"
    by (simp add: zoom_table_fix)
  have tp: "map get_pages_per_image quality_options = [Inr 8, Inr 6, Inr 4, Inr 2, Inr 1]"
    by (simp add: pages_table)
  show ?thesis
    by (rule exI [of _ "zs ! i"], rule exI [of _ "zs ! j"],
        rule exI [of _ "fs ! i"], rule exI [of _ "fs ! j"],
        rule exI [of _ "ps ! i"], rule exI [of _ "ps ! j"])
      (intro conjI zi zj zpos zmono fi fj fpos fmono pi pj ppos pmono tz tf tp)
qed

theorem quality_policy_monotone_witness:
  "(1::nat) \<le> 3 \<and> 3 < length quality_options \<and>
   quality_options ! 1 = ''Low'' \<and> quality_options ! 3 = ''High'' \<and>
   get_zoom_factor ''Low'' = Inr (3 / 10) \<and> get_zoom_factor ''High'' = Inr (7 / 10) \<and>
   get_zoom_factor_fix ''Low'' = Inr (25 / 100) \<and> get_zoom_factor_fix ''High'' = Inr (5 / 10) \<and>
   get_pages_per_image ''Low'' = Inr 6 \<and> get_pages_per_image ''High'' = Inr 2 \<and>
   (\<exists>zi zj fi fj pi pj.
      get_zoom_factor ''Low'' = Inr zi \<and> get_zoom_factor ''High'' = Inr zj \<and>
      0 < zi \<and> zi \<le> zj \<and>
      get_zoom_factor_fix ''Low'' = Inr fi \<and> get_zoom_factor_fix ''High'' = Inr fj \<and>
      0 < fi \<and> fi \<le> fj \<and>
      get_pages_per_image ''Low'' = Inr pi \<and> get_pages_per_image ''High'' = Inr pj \<and>
      0 < pj \<and> pj \<le> pi)"
proof -
  have le: "(1::nat) \<le> 3" by simp
  have lt: "3 < length quality_options" by (simp add: quality_options_def)
  have at1: "quality_options ! 1 = ''Low''" by (simp add: quality_options_def)
  have at3: "quality_options ! 3 = ''High''" by (simp add: quality_options_def)
  note t = quality_policy_monotone [OF le lt, unfolded at1 at3]
  from t have tz: "map get_zoom_factor quality_options =
             [Inr (2 / 10), Inr (3 / 10), Inr (45 / 100), Inr (7 / 10), Inr 1]"
    and tf: "map get_zoom_factor_fix quality_options =
             [Inr (1 / 6), Inr (25 / 100), Inr (33 / 100), Inr (5 / 10), Inr 1]"
    and tp: "map get_pages_per_image quality_options = [Inr 8, Inr 6, Inr 4, Inr 2, Inr 1]"
    by blast+
  have v: "get_zoom_factor ''Low'' = Inr (3 / 10)" "get_zoom_factor ''High'' = Inr (7 / 10)"
    "get_zoom_factor_fix ''Low'' = Inr (25 / 100)" "get_zoom_factor_fix ''High'' = Inr (5 / 10)"
    "get_pages_per_image ''Low'' = Inr 6" "get_pages_per_image ''High'' = Inr 2"
    using tz tf tp by (simp_all add: quality_options_def)
  from t have "\<exists>zi zj fi fj pi pj.
      get_zoom_factor ''Low'' = Inr zi \<and> get_zoom_factor ''High'' = Inr zj \<and>
      0 < zi \<and> zi \<le> zj \<and>
      get_zoom_factor_fix ''Low'' = Inr fi \<and> get_zoom_factor_fix ''High'' = Inr fj \<and>
      0 < fi \<and> fi \<le> fj \<and>
      get_pages_per_image ''Low'' = Inr pi \<and> get_pages_per_image ''High'' = Inr pj \<and>
      0 < pj \<and> pj \<le> pi"
    by blast
  then show ?thesis using le lt at1 at3 v by blast
qed

text \<open>
  C4 as stated fails on \<open>get_zoom_factor\<close> of \<^verbatim>\<open>fix_rgba_filedata_error.py\<close>: its table
  is not 1.0/0.7/0.45/0.3/0.2; "High" gives 0.5 there and 0.7 in \<^verbatim>\<open>anthropic_ocr.py\<close>.
\<close>

theorem zoom_table_fix_counterexample:
  "get_zoom_factor_fix ''High'' = Inr (5 / 10) \<and>
   get_zoom_factor ''High'' = Inr (7 / 10) \<and>
   get_zoom_factor_fix ''High'' \<noteq> get_zoom_factor ''High'' \<and>
   get_zoom_factor_fix ''Medium'' = Inr (33 / 100) \<and>
   get_zoom_factor_fix ''Low'' = Inr (25 / 100) \<and>
   get_zoom_factor_fix ''Very Low'' = Inr (1 / 6) \<and>
   get_zoom_factor_fix ''Very Low'' \<noteq> Inr (2 / 10)"
  by (simp add: get_zoom_factor_fix_def zoom_quality_map_fix_def
      get_zoom_factor_def zoom_quality_map_def)

text \<open>
  C10. The integer-tier lookup is total: on every integer outside 1..5 it returns 1, the
  value it also gives for tier 5 (one page per image); inside 1..5 it returns the table's
  entry. It has no error result at all.
\<close>

theorem get_pages_per_image_tier_default:
  "(quality_level \<notin> {1, 2, 3, 4, 5} \<longrightarrow> get_pages_per_image_tier quality_level = 1) \<and>
   get_pages_per_image_tier 5 = 1 \<and>
   map get_pages_per_image_tier [1, 2, 3, 4, 5] = [8, 6, 4, 2, 1]"
  by (simp add: get_pages_per_image_tier_def pages_map_def)

theorem get_pages_per_image_tier_default_witness:
  "(7::int) \<notin> {1, 2, 3, 4, 5} \<and> get_pages_per_image_tier 7 = 1 \<and>
   (0::int) \<notin> {1, 2, 3, 4, 5} \<and> get_pages_per_image_tier 0 = 1 \<and>
   (-3::int) \<notin> {1, 2, 3, 4, 5} \<and> get_pages_per_image_tier (-3) = 1"
  using get_pages_per_image_tier_default [of 7]
    get_pages_per_image_tier_default [of 0]
    get_pages_per_image_tier_default [of "-3"]
  by simp

section \<open>Properties of the composite builder\<close>

lemma paste_geometry [simp]:
  "mode (paste lib dst im box) = mode dst"
  "width (paste lib dst im box) = width dst"
  "height (paste lib dst im box) = height dst"
  by (simp_all add: paste_def)

lemma source_pixel_paste [simp]:
  "source_pixel lib (paste lib dst im box) im' = source_pixel lib dst im'"
  by (simp add: source_pixel_def)

lemma paste_images_geometry:
  "mode (paste_images lib W imgs y0 c) = mode c \<and>
   width (paste_images lib W imgs y0 c) = width c \<and>
   height (paste_images lib W imgs y0 c) = height c"
  by (induction imgs arbitrary: y0 c) (simp_all add: Let_def)

text \<open>Rows above the running offset are never written again.\<close>

lemma paste_images_above:
  "Y < y0 \<Longrightarrow> pixel_at (paste_images lib W imgs y0 c) x Y = pixel_at c x Y"
proof (induction imgs arbitrary: y0 c)
  case Nil
  then show ?case by simp
next
  case (Cons img imgs)
  have "Y < y0 + height img" using Cons.prems by simp
  then have "pixel_at (paste_images lib W (img # imgs) y0 c) x Y =
             pixel_at (paste lib c img ((W - width img) div 2, y0)) x Y"
    by (simp add: Let_def Cons.IH)
  also have "\<dots> = pixel_at c x Y"
    using Cons.prems by (simp add: paste_def)
  finally show ?case .
qed

lemma paste_images_pixel:
  assumes "i < length imgs" and "y < height (imgs ! i)"
  shows "pixel_at (paste_images lib W imgs y0 c) x
           (y0 + sum_list (map height (take i imgs)) + y) =
         (if (W - width (imgs ! i)) div 2 \<le> x \<and>
             x < (W - width (imgs ! i)) div 2 + width (imgs ! i)
          then source_pixel lib c (imgs ! i) (x - (W - width (imgs ! i)) div 2) y
          else pixel_at c x (y0 + sum_list (map height (take i imgs)) + y))"
  using assms
proof (induction imgs arbitrary: i y0 c)
  case Nil
  then show ?case by simp
next
  case (Cons img imgs)
  let ?c' = "paste lib c img ((W - width img) div 2, y0)"
  show ?case
  proof (cases i)
    case 0
    have "pixel_at (paste_images lib W (img # imgs) y0 c) x (y0 + y) = pixel_at ?c' x (y0 + y)"
      using Cons.prems 0 by (simp add: Let_def paste_images_above)
    then show ?thesis
      using Cons.prems 0 by (simp add: paste_def)
  next
    case (Suc k)
    have k: "k < length imgs" "y < height (imgs ! k)"
      using Cons.prems Suc by simp_all
    have row: "y0 + sum_list (map height (take i (img # imgs))) + y =
               (y0 + height img) + sum_list (map height (take k imgs)) + y"
      using Suc by simp
    have untouched: "pixel_at ?c' x ((y0 + height img) + sum_list (map height (take k imgs)) + y) =
                     pixel_at c x ((y0 + height img) + sum_list (map height (take k imgs)) + y)"
      by (simp add: paste_def)
    show ?thesis
      unfolding row using Cons.IH [OF k, of "y0 + height img" ?c'] untouched Suc
      by (simp add: Let_def)
  qed
qed

text \<open>The bands tile the canvas: every row lies in exactly one image's band.\<close>

lemma row_in_band:
  "Y < sum_list (map height imgs) \<Longrightarrow>
   \<exists>i y. i < length imgs \<and> y < height (imgs ! i) \<and>
         Y = sum_list (map height (take i imgs)) + y"
proof (induction imgs arbitrary: Y)
  case Nil
  then show ?case by simp
next
  case (Cons img imgs)
  show ?case
  proof (cases "Y < height img")
    case True
    then have "0 < length (img # imgs) \<and> Y < height ((img # imgs) ! 0) \<and>
               Y = sum_list (map height (take 0 (img # imgs))) + Y"
      by simp
    then show ?thesis by blast
  next
    case False
    then have "Y - height img < sum_list (map height imgs)"
      using Cons.prems by simp
    from Cons.IH [OF this] obtain i y where
      iy: "i < length imgs" "y < height (imgs ! i)"
          "Y - height img = sum_list (map height (take i imgs)) + y"
      by blast
    then have "Suc i < length (img # imgs) \<and> y < height ((img # imgs) ! Suc i) \<and>
               Y = sum_list (map height (take (Suc i) (img # imgs))) + y"
      using False by simp
    then show ?thesis by blast
  qed
qed

lemma paste_loop_v2_geometry:
  "for_loop (paste_page_v2 lib doc rh) items c = Inr c' \<Longrightarrow>
   mode c' = mode c \<and> width c' = width c \<and> height c' = height c"
proof (induction items arbitrary: c)
  case Nil
  then show ?case by simp
next
  case (Cons jp items)
  from Cons.prems obtain c1 where
    c1: "paste_page_v2 lib doc rh jp c = Inr c1" "for_loop (paste_page_v2 lib doc rh) items c1 = Inr c'"
    by (auto split: sum.splits)
  have "mode c1 = mode c \<and> width c1 = width c \<and> height c1 = height c"
    using c1(1) by (auto simp: paste_page_v2_def split: sum.splits)
  then show ?case using Cons.IH [OF c1(2)] by simp
qed

lemma stack_pages_v2_geometry:
  assumes "stack_pages_v2 lib doc i end_idx = Inr c"
  shows "mode c = ''RGB'' \<and>
         width c = float_mul_int lib 2 (rect_width (doc ! i)) \<and>
         height c = float_mul_int lib (end_idx - i) (rect_height (doc ! i) * 2)"
proof -
  from assms have i: "i < length doc"
    by (auto simp: stack_pages_v2_def load_page_def Let_def split: if_splits)
  with assms have
    "for_loop (paste_page_v2 lib doc (float_mul_int lib 2 (rect_height (doc ! i))))
       (enumerate 0 [i..<end_idx])
       (Image_new ''RGB'' (float_mul_int lib 2 (rect_width (doc ! i)),
          float_mul_int lib (end_idx - i) (rect_height (doc ! i) * 2)) white) = Inr c"
    by (simp add: stack_pages_v2_def load_page_def Let_def)
  from paste_loop_v2_geometry [OF this] show ?thesis
    by (simp add: Image_new_def)
qed

text \<open>
  C2, as amended. For a non-empty list of images \<open>combine_images_vertically\<close>
  (\<^verbatim>\<open>anthropic_ocr.py\<close>) returns an \<open>RGB\<close> image whose width is the largest input width and
  whose height is the sum of the input heights. Row \<open>y\<close> of image \<open>i\<close> is row
  \<open>h\<^sub>0 + \<dots> + h\<^sub>i\<^sub>-\<^sub>1 + y\<close> of the canvas; in it the columns from
  \<open>(max_width - w\<^sub>i) div 2\<close> on hold that row of image \<open>i\<close>, and every other column is
  white. Every row of the canvas is such a row. The inline stacking of
  \<^verbatim>\<open>img_pdf_v2.py\<close> is different: when it returns, its canvas has the size computed from
  the first page of the set, \<open>int(2 * rect.width)\<close> by
  \<open>int(2 * rect.height * current_pages)\<close>.
\<close>

theorem composite_layout:
  assumes "imgs \<noteq> []"
  shows "\<exists>combined.
           combine_images_vertically lib imgs = Some combined \<and>
           mode combined = ''RGB'' \<and>
           width combined = Max (set (map width imgs)) \<and>
           height combined = sum_list (map height imgs) \<and>
           (\<forall>i < length imgs. \<forall>y < height (imgs ! i). \<forall>x < width combined.
              pixel_at combined x (sum_list (map height (take i imgs)) + y) =
                (if (width combined - width (imgs ! i)) div 2 \<le> x \<and>
                    x < (width combined - width (imgs ! i)) div 2 + width (imgs ! i)
                 then source_pixel lib combined (imgs ! i)
                        (x - (width combined - width (imgs ! i)) div 2) y
                 else white)) \<and>
           (\<forall>Y < height combined. \<exists>i y.
              i < length imgs \<and> y < height (imgs ! i) \<and>
              Y = sum_list (map height (take i imgs)) + y) \<and>
           (\<forall>doc i end_idx c.
              stack_pages_v2 lib doc i end_idx = Inr c \<longrightarrow>
              width c = float_mul_int lib 2 (rect_width (doc ! i)) \<and>
              height c = float_mul_int lib (end_idx - i) (rect_height (doc ! i) * 2))"
proof -
  define W where "W = Max (set (map width imgs))"
  define H where "H = sum_list (map height imgs)"
  define canvas where "canvas = Image_new ''RGB'' (W, H) white"
  define combined where "combined = paste_images lib W imgs 0 canvas"
  have some: "combine_images_vertically lib imgs = Some combined"
    using assms
    by (simp add: combine_images_vertically_def Let_def combined_def canvas_def W_def H_def)
  have geom: "mode combined = ''RGB''" "width combined = W" "height combined = H"
    using paste_images_geometry [of lib W imgs 0 canvas]
    by (simp_all add: combined_def canvas_def Image_new_def)
  have src: "source_pixel lib combined im = source_pixel lib canvas im" for im
    using geom(1) by (simp add: source_pixel_def canvas_def Image_new_def)
  have pix: "pixel_at combined x (sum_list (map height (take i imgs)) + y) =
               (if (W - width (imgs ! i)) div 2 \<le> x \<and>
                   x < (W - width (imgs ! i)) div 2 + width (imgs ! i)
                then source_pixel lib combined (imgs ! i) (x - (W - width (imgs ! i)) div 2) y
                else white)"
    if "i < length imgs" "y < height (imgs ! i)" for i x y
    using paste_images_pixel [OF that, of lib W 0 canvas x]
    by (simp add: combined_def [symmetric] src) (simp add: canvas_def Image_new_def)
  have rows: "\<exists>i y. i < length imgs \<and> y < height (imgs ! i) \<and>
                Y = sum_list (map height (take i imgs)) + y" if "Y < H" for Y
    using that unfolding H_def by (rule row_in_band)
  have v2: "width c = float_mul_int lib 2 (rect_width (doc ! k)) \<and>
            height c = float_mul_int lib (end_idx - k) (rect_height (doc ! k) * 2)"
    if "stack_pages_v2 lib doc k end_idx = Inr c" for doc k end_idx c
    using stack_pages_v2_geometry [OF that] by simp
  show ?thesis
    using some geom pix rows v2 unfolding W_def [symmetric] H_def [symmetric]
    by (intro exI [of _ combined]) simp
qed


theorem composite_layout_witness:
  "[plain_image ''RGB'' 4 2 [1, 1, 1], plain_image ''RGB'' 2 3 [2, 2, 2]] \<noteq> [] \<and>
   (\<exists>combined.
      combine_images_vertically example_pil
        [plain_image ''RGB'' 4 2 [1, 1, 1], plain_image ''RGB'' 2 3 [2, 2, 2]] = Some combined \<and>
      mode combined = ''RGB'' \<and> width combined = 4 \<and> height combined = 5 \<and>
      pixel_at combined 3 1 = [1, 1, 1] \<and>
      pixel_at combined 0 2 = white \<and>
      pixel_at combined 1 2 = [2, 2, 2] \<and>
      pixel_at combined 2 4 = [2, 2, 2] \<and>
      pixel_at combined 3 4 = white)"
proof -
  let ?a = "plain_image ''RGB'' 4 2 [1, 1, 1]"
  let ?b = "plain_image ''RGB'' 2 3 [2, 2, 2]"
  have ne: "[?a, ?b] \<noteq> []" by simp
  from composite_layout [OF ne, of example_pil] obtain combined where
    c: "combine_images_vertically example_pil [?a, ?b] = Some combined"
    and m: "mode combined = ''RGB''"
    and w: "width combined = Max (set (map width [?a, ?b]))"
    and h: "height combined = sum_list (map height [?a, ?b])"
    and px: "\<forall>i < length [?a, ?b]. \<forall>y < height ([?a, ?b] ! i). \<forall>x < width combined.
              pixel_at combined x (sum_list (map height (take i [?a, ?b])) + y) =
                (if (width combined - width ([?a, ?b] ! i)) div 2 \<le> x \<and>
                    x < (width combined - width ([?a, ?b] ! i)) div 2 + width ([?a, ?b] ! i)
                 then source_pixel example_pil combined ([?a, ?b] ! i)
                        (x - (width combined - width ([?a, ?b] ! i)) div 2) y
                 else white)"
    by blast
  have w4: "width combined = 4" using w by (simp add: plain_image_def)
  have h5: "height combined = 5" using h by (simp add: plain_image_def)
  have p1: "pixel_at combined 3 1 = [1, 1, 1]"
    using px [rule_format, of 0 1 3] w4 m by (simp add: plain_image_def source_pixel_def)
  have p2: "pixel_at combined 0 2 = white"
    using px [rule_format, of 1 0 0] w4 m by (simp add: plain_image_def source_pixel_def)
  have p3: "pixel_at combined 1 2 = [2, 2, 2]"
    using px [rule_format, of 1 0 1] w4 m by (simp add: plain_image_def source_pixel_def)
  have p4: "pixel_at combined 2 4 = [2, 2, 2]"
    using px [rule_format, of 1 2 2] w4 m by (simp add: plain_image_def source_pixel_def)
  have p5: "pixel_at combined 3 4 = white"
    using px [rule_format, of 1 2 3] w4 m by (simp add: plain_image_def source_pixel_def)
  show ?thesis using ne c m w4 h5 p1 p2 p3 p4 p5 by blast
qed

text \<open>
  C2 as stated fails on the inline stacking of \<^verbatim>\<open>img_pdf_v2.py\<close>: a two-page document
  whose pages are 100 by 100 and 100 by 200 points, at tier 4 (two pages per image),
  gives one image of 200 by 400 pixels, while the two page rasters are 200 by 200 and
  200 by 400 pixels, 600 rows in all.
\<close>

theorem first_page_canvas_counterexample:
  "map (width \<circ> encoded \<circ> data)
     (fst (convert_pdf_to_images_v2 example_pil
             (pdf_upload ''a.pdf'' [plain_page 100 100, plain_page 100 200]) 4)) = [200] \<and>
   map (height \<circ> encoded \<circ> data)
     (fst (convert_pdf_to_images_v2 example_pil
             (pdf_upload ''a.pdf'' [plain_page 100 100, plain_page 100 200]) 4)) = [400] \<and>
   pix_height (projr (get_pixmap (plain_page 100 100) 2)) = 200 \<and>
   pix_height (projr (get_pixmap (plain_page 100 200) 2)) = 400 \<and>
   (200::nat) + 400 \<noteq> 400"
  by code_simp

section \<open>Properties of the page grouping\<close>

lemma ceiling_quotient:
  assumes "0 < p"
  shows "nat \<lceil>(of_nat t :: rat) / of_nat p\<rceil> = (t + p - 1) div p"
proof -
  define n where "n = (t + p - 1) div p"
  have lo: "n * p \<le> t + p - 1"
    unfolding n_def by simp
  have hi: "t + p - 1 < (n + 1) * p"
    unfolding n_def using assms
    by (metis Suc_eq_plus1 dividend_less_div_times add.commute mult.commute mult_Suc)
  have lo': "n * p + 1 \<le> t + p" using lo assms by linarith
  have hi': "t \<le> n * p" using hi assms by simp
  have "(of_nat (n * p + 1) :: rat) \<le> of_nat (t + p)"
    using lo' by (rule of_nat_mono)
  then have a: "(of_nat n :: rat) * of_nat p + 1 \<le> of_nat t + of_nat p" by simp
  have "(of_nat t :: rat) \<le> of_nat (n * p)"
    using hi' by (rule of_nat_mono)
  then have b: "(of_nat t :: rat) \<le> of_nat n * of_nat p" by simp
  have pos: "(0::rat) < of_nat p" using assms by simp
  have "\<lceil>(of_nat t :: rat) / of_nat p\<rceil> = int n"
  proof (rule ceiling_unique)
    have "(of_nat n - 1) * (of_nat p :: rat) < of_nat t"
      using a by (simp add: algebra_simps)
    then show "of_int (int n) - 1 < (of_nat t :: rat) / of_nat p"
      using pos by (simp add: pos_less_divide_eq)
    show "(of_nat t :: rat) / of_nat p \<le> of_int (int n)"
      using b pos by (simp add: pos_divide_le_eq)
  qed
  then show ?thesis by (simp add: n_def)
qed

lemma num_combined_images_eq:
  "0 < p \<Longrightarrow> num_combined_images t p = Inr ((t + p - 1) div p)"
  by (simp add: num_combined_images_def ceiling_quotient)

text \<open>Arithmetic of the group count \<open>(t + p - 1) div p\<close>.\<close>

lemma group_start_in_range:
  fixes p t k :: nat
  assumes "0 < p" and "k < (t + p - 1) div p"
  shows "k * p < t"
proof -
  have "Suc k * p \<le> ((t + p - 1) div p) * p"
    using assms(2) by (intro mult_le_mono1) simp
  also have "\<dots> \<le> t + p - 1" by simp
  finally show ?thesis using assms(1) by simp
qed

lemma group_count_covers:
  fixes p t :: nat
  assumes "0 < p"
  shows "t \<le> ((t + p - 1) div p) * p"
proof -
  have "t + p - 1 < (Suc ((t + p - 1) div p)) * p"
    using assms
    by (metis dividend_less_div_times add.commute mult.commute mult_Suc)
  then show ?thesis using assms by simp
qed

lemma full_groups_le: "0 < p \<Longrightarrow> t div p \<le> (t + p - 1) div (p::nat)"
  by (rule div_le_mono) simp

lemma upt_join: "a \<le> b \<Longrightarrow> [0..<a] @ [a..<b] = [0..<b]"
  using upt_add_eq_append [of 0 a "b - a"] by simp

lemma full_group_iff:
  fixes p t k :: nat
  assumes "0 < p"
  shows "(k < t div p) = (k * p + p \<le> t)"
proof -
  have "(k < t div p) = (Suc k \<le> t div p)" by (simp add: Suc_le_eq)
  also have "\<dots> = (Suc k * p \<le> t)"
    using assms by (simp add: less_eq_div_iff_mult_less_eq)
  finally show ?thesis by (simp add: add.commute)
qed

lemma range_from_eq:
  assumes "0 < step"
  shows "range_from (k * step) stop step =
         map (\<lambda>j. j * step) [k..<(stop + step - 1) div step]"
proof (induction "(stop + step - 1) div step - k" arbitrary: k)
  case 0
  then have "(stop + step - 1) div step \<le> k" by simp
  then have "((stop + step - 1) div step) * step \<le> k * step"
    by (rule mult_le_mono1)
  then have "stop \<le> k * step"
    using group_count_covers [OF assms, of stop] by linarith
  then show ?case
    using 0 by (simp add: range_from.simps [of "k * step"])
next
  case (Suc d)
  then have k: "k < (stop + step - 1) div step" by simp
  then have "k * step < stop" using assms by (intro group_start_in_range)
  then have "range_from (k * step) stop step = k * step # range_from (Suc k * step) stop step"
    using assms by (simp add: range_from.simps [of "k * step"] add.commute)
  also have "range_from (Suc k * step) stop step =
             map (\<lambda>j. j * step) [Suc k..<(stop + step - 1) div step]"
    using Suc by (intro Suc.hyps(1)) simp
  finally show ?case using k by (simp add: upt_conv_Cons)
qed

lemma range_sets_eq:
  assumes "0 < p"
  shows "map (\<lambda>i. (i, min (i + p) t)) (range_from 0 t p) =
         map (group_bounds p t) [0..<(t + p - 1) div p]"
proof -
  have "range_from 0 t p = map (\<lambda>j. j * p) [0..<(t + p - 1) div p]"
    using range_from_eq [OF assms, of 0 t] by simp
  then show ?thesis by (simp add: group_bounds_def Let_def comp_def)
qed

lemma page_groups_eq:
  "0 < p \<Longrightarrow> page_groups t p = Inr (map (group_bounds p t) [0..<(t + p - 1) div p])"
  by (simp add: page_groups_def num_combined_images_eq)

lemma group_bounds_nth:
  assumes "0 < p" and "k < (t + p - 1) div p"
  shows "group_bounds p t k = (k * p, min ((k + 1) * p) t)"
    and "fst (group_bounds p t k) < snd (group_bounds p t k)"
    and "snd (group_bounds p t k) - fst (group_bounds p t k) \<le> p"
    and "Suc k < (t + p - 1) div p \<Longrightarrow>
         snd (group_bounds p t k) - fst (group_bounds p t k) = p \<and>
         snd (group_bounds p t k) = fst (group_bounds p t (Suc k))"
proof -
  have start: "k * p < t" using assms by (rule group_start_in_range)
  show "group_bounds p t k = (k * p, min ((k + 1) * p) t)"
    by (simp add: group_bounds_def Let_def add.commute)
  show "fst (group_bounds p t k) < snd (group_bounds p t k)"
    using start assms(1) by (simp add: group_bounds_def Let_def)
  show "snd (group_bounds p t k) - fst (group_bounds p t k) \<le> p"
    by (simp add: group_bounds_def Let_def)
  show "snd (group_bounds p t k) - fst (group_bounds p t k) = p \<and>
        snd (group_bounds p t k) = fst (group_bounds p t (Suc k))"
    if "Suc k < (t + p - 1) div p"
  proof -
    have "Suc k * p < t" using assms(1) that by (rule group_start_in_range)
    then show ?thesis by (simp add: group_bounds_def Let_def)
  qed
qed

lemma groups_cover_prefix:
  assumes "0 < p" and "m \<le> (t + p - 1) div p"
  shows "concat (map (\<lambda>(s, e). [s..<e]) (map (group_bounds p t) [0..<m])) =
         [0..<min (m * p) t]"
  using assms(2)
proof (induction m)
  case 0
  then show ?case by simp
next
  case (Suc m)
  then have m: "m < (t + p - 1) div p" by simp
  then have start: "m * p < t" using assms(1) by (intro group_start_in_range)
  have ih: "concat (map (\<lambda>(s, e). [s..<e]) (map (group_bounds p t) [0..<m])) = [0..<m * p]"
    using Suc start by (simp add: min_def)
  have "concat (map (\<lambda>(s, e). [s..<e]) (map (group_bounds p t) [0..<Suc m])) =
        concat (map (\<lambda>(s, e). [s..<e]) (map (group_bounds p t) [0..<m])) @
        [m * p..<min (m * p + p) t]"
    by (simp add: group_bounds_def Let_def)
  also have "\<dots> = [0..<m * p] @ [m * p..<min (m * p + p) t]"
    by (simp only: ih)
  also have "\<dots> = [0..<min (m * p + p) t]"
    using start by (intro upt_join) simp
  finally show ?case by (simp add: add.commute)
qed

lemma groups_cover:
  assumes "0 < p"
  shows "concat (map (\<lambda>(s, e). [s..<e]) (map (group_bounds p t) [0..<(t + p - 1) div p])) =
         [0..<t]"
  using groups_cover_prefix [OF assms order_refl, of t] group_count_covers [OF assms, of t]
  by (simp add: min_def)

lemma page_sets_v2_eq:
  assumes "0 < p"
  shows "page_sets_v2 t p = map (group_bounds p t) [0..<(t + p - 1) div p]"
proof -
  have "\<forall>ie \<in> set (map (\<lambda>i. (i, min (i + p) t)) (range_from 0 t p)).
          (\<lambda>(i, end_idx). \<not> (end_idx - i < p \<and> i + p < t)) ie"
    by auto
  then have "page_sets_v2 t p = map (\<lambda>i. (i, min (i + p) t)) (range_from 0 t p)"
    unfolding page_sets_v2_def by (rule filter_True)
  then show ?thesis by (simp add: range_sets_eq [OF assms])
qed

lemma filter_less_upt: "m \<le> n \<Longrightarrow> filter (\<lambda>k. k < m) [0..<n] = [0..<m]"
  by (induction n) (auto simp: le_Suc_eq)

lemma full_sets_st_eq:
  assumes "0 < p"
  shows "full_sets_st t p = map (\<lambda>k. (k * p, k * p + p)) [0..<t div p]"
proof -
  let ?n = "(t + p - 1) div p"
  have full: "(snd (group_bounds p t k) - fst (group_bounds p t k) = p) = (k < t div p)" for k
    using assms by (auto simp: full_group_iff group_bounds_def Let_def min_def)
  have "full_sets_st t p =
        filter (\<lambda>(i, end_idx). end_idx - i = p) (map (group_bounds p t) [0..<?n])"
    by (simp add: full_sets_st_def range_sets_eq [OF assms])
  also have "\<dots> = map (group_bounds p t) (filter (\<lambda>k. k < t div p) [0..<?n])"
    by (simp add: filter_map comp_def case_prod_beta full)
  also have "\<dots> = map (group_bounds p t) [0..<t div p]"
    using full_groups_le [OF assms, of t] by (simp add: filter_less_upt)
  also have "\<dots> = map (\<lambda>k. (k * p, k * p + p)) [0..<t div p]"
  proof (rule map_cong [OF refl])
    fix k assume "k \<in> set [0..<t div p]"
    then have "k < t div p" by simp
    then have "k * p + p \<le> t"
      using assms by (simp add: full_group_iff)
    then show "group_bounds p t k = (k * p, k * p + p)"
      by (simp add: group_bounds_def Let_def min_def)
  qed
  finally show ?thesis .
qed

section \<open>Properties of the document pipeline\<close>

lemma for_loop_append:
  "for_loop body (xs @ ys) s =
     (case for_loop body xs s of Inl e \<Rightarrow> Inl e | Inr s' \<Rightarrow> for_loop body ys s')"
  by (induction xs arbitrary: s) (auto split: sum.splits)

text \<open>An item whose body raises whatever the loop variables hold makes the loop raise.\<close>

lemma for_loop_raises:
  assumes "x \<in> set xs" and "\<And>s. \<exists>e. body x s = Inl e"
  shows "\<exists>e. for_loop body xs s = Inl e"
  using assms(1)
proof (induction xs arbitrary: s)
  case Nil
  then show ?case by simp
next
  case (Cons y ys)
  show ?case
  proof (cases "body y s")
    case (Inl e)
    then show ?thesis by simp
  next
    case (Inr s')
    show ?thesis
    proof (cases "x = y")
      case True
      then show ?thesis using assms(2) [of s] Inr by simp
    next
      case False
      then have "x \<in> set ys" using Cons.prems by simp
      then show ?thesis using Cons.IH [of s'] Inr by simp
    qed
  qed
qed

text \<open>A loop whose body appends one output per item.\<close>

lemma for_loop_collect:
  assumes "\<And>x acc. x \<in> set xs \<Longrightarrow>
             body x acc = Inr (fst acc @ [f x], snd acc @ [g x])"
  shows "for_loop body xs acc = Inr (fst acc @ map f xs, snd acc @ map g xs)"
  using assms
proof (induction xs arbitrary: acc)
  case Nil
  then show ?case by simp
next
  case (Cons x xs)
  have "body x acc = Inr (fst acc @ [f x], snd acc @ [g x])"
    by (rule Cons.prems) simp
  moreover have "for_loop body xs (fst acc @ [f x], snd acc @ [g x]) =
                 Inr (fst (fst acc @ [f x], snd acc @ [g x]) @ map f xs,
                      snd (fst acc @ [f x], snd acc @ [g x]) @ map g xs)"
    by (rule Cons.IH) (simp add: Cons.prems)
  ultimately show ?case by simp
qed

lemma render_pages_ok:
  assumes "\<And>k. k \<in> set ks \<Longrightarrow>
             k < length doc \<and> (\<exists>pix. get_pixmap (doc ! k) z = Inr pix)"
  shows "render_pages doc z ks acc =
         Inr (acc @ map (\<lambda>k. frombytes_RGB (projr (get_pixmap (doc ! k) z))) ks)"
  using assms
proof (induction ks arbitrary: acc)
  case Nil
  then show ?case by simp
next
  case (Cons k ks)
  from Cons.prems [of k] obtain pix where
    k: "k < length doc" "get_pixmap (doc ! k) z = Inr pix" by auto
  have "render_pages doc z (k # ks) acc = render_pages doc z ks (acc @ [frombytes_RGB pix])"
    using k by (simp add: load_page_def)
  also have "\<dots> = Inr ((acc @ [frombytes_RGB pix]) @
                     map (\<lambda>k. frombytes_RGB (projr (get_pixmap (doc ! k) z))) ks)"
    by (rule Cons.IH) (simp add: Cons.prems)
  finally show ?case using k by simp
qed

lemma render_pages_raises:
  assumes "k \<in> set ks" and "get_pixmap (doc ! k) z = Inl e"
  shows "\<exists>e'. render_pages doc z ks acc = Inl e'"
  using assms(1)
proof (induction ks arbitrary: acc)
  case Nil
  then show ?case by simp
next
  case (Cons j ks)
  show ?case
  proof (cases "j = k")
    case True
    then show ?thesis using assms(2) by (simp add: load_page_def split: sum.splits)
  next
    case False
    then have "k \<in> set ks" using Cons.prems by simp
    then show ?thesis using Cons.IH by (auto split: sum.splits)
  qed
qed

text \<open>What a loop that succeeded has collected, when each successful step appends one
  output to each list.\<close>

lemma for_loop_collected:
  assumes "\<And>x acc acc'. x \<in> set xs \<Longrightarrow> body x acc = Inr acc' \<Longrightarrow>
             acc' = (fst acc @ [f x], snd acc @ [g x])"
    and "for_loop body xs acc = Inr acc'"
  shows "acc' = (fst acc @ map f xs, snd acc @ map g xs)"
  using assms
proof (induction xs arbitrary: acc)
  case Nil
  then show ?case by simp
next
  case (Cons x xs)
  from Cons.prems(2) obtain acc1 where
    s1: "body x acc = Inr acc1" and s2: "for_loop body xs acc1 = Inr acc'"
    by (auto split: sum.splits)
  have a1: "acc1 = (fst acc @ [f x], snd acc @ [g x])"
    using s1 by (intro Cons.prems(1)) simp_all
  have "acc' = (fst acc1 @ map f xs, snd acc1 @ map g xs)"
  proof (rule Cons.IH [OF _ s2])
    fix y a a'
    assume "y \<in> set xs" and "body y a = Inr a'"
    then show "a' = (fst a @ [f y], snd a @ [g y])"
      using Cons.prems(1) [of y a a'] by simp
  qed
  then show ?case by (simp add: a1)
qed

lemma for_loop_collect1:
  assumes "\<And>x acc. x \<in> set xs \<Longrightarrow> body x acc = Inr (acc @ [f x])"
  shows "for_loop body xs acc = Inr (acc @ map f xs)"
  using assms
proof (induction xs arbitrary: acc)
  case Nil
  then show ?case by simp
next
  case (Cons x xs)
  have "body x acc = Inr (acc @ [f x])" by (rule Cons.prems) simp
  moreover have "for_loop body xs (acc @ [f x]) = Inr ((acc @ [f x]) @ map f xs)"
    by (rule Cons.IH) (simp add: Cons.prems)
  ultimately show ?case by simp
qed

lemma for_loop_collected1:
  assumes "\<And>x acc acc'. x \<in> set xs \<Longrightarrow> body x acc = Inr acc' \<Longrightarrow> acc' = acc @ [f x]"
    and "for_loop body xs acc = Inr acc'"
  shows "acc' = acc @ map f xs"
  using assms
proof (induction xs arbitrary: acc)
  case Nil
  then show ?case by simp
next
  case (Cons x xs)
  from Cons.prems(2) obtain acc1 where
    s1: "body x acc = Inr acc1" and s2: "for_loop body xs acc1 = Inr acc'"
    by (auto split: sum.splits)
  have a1: "acc1 = acc @ [f x]"
    using s1 by (intro Cons.prems(1)) simp_all
  have "acc' = acc1 @ map f xs"
  proof (rule Cons.IH [OF _ s2])
    fix y a a'
    assume "y \<in> set xs" and "body y a = Inr a'"
    then show "a' = a @ [f y]"
      using Cons.prems(1) [of y a a'] by simp
  qed
  then show ?case by (simp add: a1)
qed

lemma render_pages_rendered:
  "render_pages doc z ks acc = Inr r \<Longrightarrow> r = acc @ map (rendered doc z) ks"
proof (induction ks arbitrary: acc)
  case Nil
  then show ?case by simp
next
  case (Cons k ks)
  from Cons.prems obtain pix where
    k: "k < length doc" "get_pixmap (doc ! k) z = Inr pix"
    and rest: "render_pages doc z ks (acc @ [frombytes_RGB pix]) = Inr r"
    by (auto simp: load_page_def split: if_splits sum.splits)
  from Cons.IH [OF rest] k show ?case by simp
qed

text \<open>The step of the group loop: when it succeeds it has appended the payload and the
  caption of its group, and it succeeds when the pages of the group render and the
  encoder accepts their composite.\<close>

lemma process_group_appended:
  assumes "process_group lib file_name doc z p t g acc = Inr acc'"
  shows "acc' = (fst acc @ [group_payload lib doc z (group_bounds p t g)],
                snd acc @ [caption file_name (fst (group_bounds p t g))
                             (snd (group_bounds p t g))])"
proof -
  obtain s e where se: "group_bounds p t g = (s, e)" by (cases "group_bounds p t g")
  from assms obtain ims c j where
    r: "render_pages doc z [s..<e] [] = Inr ims"
    and c: "combine_images_vertically lib ims = Some c"
    and j: "save_jpeg lib c 95 = Inr j"
    and acc': "acc' = (fst acc @ [j], snd acc @ [caption file_name s e])"
    by (auto simp: process_group_def se split: sum.splits option.splits)
  have ims: "ims = map (rendered doc z) [s..<e]"
    using render_pages_rendered [OF r] by simp
  have "j = \<lparr>encoded = c, jpeg_quality = 95\<rparr>"
    using j by (auto simp: save_jpeg_def split: if_splits)
  then show ?thesis
    using acc' c ims by (simp add: se)
qed

lemma process_group_ok:
  assumes pages: "\<forall>k < length doc. \<exists>pix. get_pixmap (doc ! k) z = Inr pix"
    and enc: "jpeg_accepts lib (encoded (group_payload lib doc z (group_bounds p (length doc) g)))"
    and p: "0 < p" and g: "g < (length doc + p - 1) div p"
  shows "process_group lib file_name doc z p (length doc) g acc =
         Inr (fst acc @ [group_payload lib doc z (group_bounds p (length doc) g)],
              snd acc @
                [caption file_name (fst (group_bounds p (length doc) g))
                   (snd (group_bounds p (length doc) g))])"
proof -
  obtain s e where se: "group_bounds p (length doc) g = (s, e)"
    by (cases "group_bounds p (length doc) g")
  have lt: "s < e" using group_bounds_nth(2) [OF p g] se by simp
  have "e \<le> length doc" using se by (auto simp: group_bounds_def Let_def)
  then have "\<And>k. k \<in> set [s..<e] \<Longrightarrow>
               k < length doc \<and> (\<exists>pix. get_pixmap (doc ! k) z = Inr pix)"
    using pages by simp
  then have r: "render_pages doc z [s..<e] [] = Inr ([] @ map (rendered doc z) [s..<e])"
    by (rule render_pages_ok)
  have ne: "map (rendered doc z) [s..<e] \<noteq> []"
    using lt by simp
  then obtain c where c: "combine_images_vertically lib (map (rendered doc z) [s..<e]) = Some c"
    unfolding combine_images_vertically_def by (simp add: Let_def)
  show ?thesis
    using r c enc by (simp add: process_group_def se save_jpeg_def)
qed

lemma process_group_rejected:
  assumes "\<not> jpeg_accepts lib (encoded (group_payload lib doc z (group_bounds p t g)))"
  shows "\<exists>e'. process_group lib file_name doc z p t g acc = Inl e'"
proof (cases "process_group lib file_name doc z p t g acc")
  case (Inl e')
  then show ?thesis by blast
next
  case (Inr acc')
  obtain s e where se: "group_bounds p t g = (s, e)" by (cases "group_bounds p t g")
  from Inr obtain ims c j where
    r: "render_pages doc z [s..<e] [] = Inr ims"
    and c: "combine_images_vertically lib ims = Some c"
    and j: "save_jpeg lib c 95 = Inr j"
    by (auto simp: process_group_def se split: sum.splits option.splits)
  have "ims = map (rendered doc z) [s..<e]"
    using render_pages_rendered [OF r] by simp
  with c j assms show ?thesis
    by (auto simp: se save_jpeg_def split: if_splits)
qed

lemma process_group_raises:
  assumes i: "i < length doc" and bad: "get_pixmap (doc ! i) z = Inl e" and p: "0 < p"
  shows "\<exists>e'. process_group lib file_name doc z p (length doc) (i div p) acc = Inl e'"
proof -
  have "i div p * p \<le> i" by simp
  moreover have "i < i div p * p + p"
    using p by (metis add.commute dividend_less_div_times mult.commute)
  ultimately have "i \<in> set [i div p * p..<min (i div p * p + p) (length doc)]"
    using i by simp
  then obtain e' where
    "render_pages doc z [i div p * p..<min (i div p * p + p) (length doc)] [] = Inl e'"
    using render_pages_raises [OF _ bad] by blast
  then show ?thesis
    by (simp add: process_group_def group_bounds_def Let_def)
qed

lemma failing_group_in_range:
  fixes i p t :: nat
  assumes "i < t" and "0 < p"
  shows "i div p < (t + p - 1) div p"
proof -
  have "i div p * p \<le> i" by simp
  then have "i div p * p < t" using assms(1) by (rule le_less_trans)
  moreover have "t \<le> ((t + p - 1) div p) * p"
    using assms(2) by (rule group_count_covers)
  ultimately have "i div p * p < ((t + p - 1) div p) * p" by (rule less_le_trans)
  then show ?thesis by simp
qed

lemma pages_per_image_positive:
  "get_pages_per_image pdf_quality = Inr p \<Longrightarrow> 0 < p"
  by (auto simp: get_pages_per_image_def pages_quality_map_def split: if_splits)

lemma pdf_to_images_body_unfold:
  assumes "get_zoom_factor quality = Inr z" and "get_pages_per_image pdf_quality = Inr p"
  shows "pdf_to_images_body lib file_name doc quality pdf_quality =
           for_loop (process_group lib file_name doc z p (length doc))
             [0..<(length doc + p - 1) div p] ([], [])"
  using assms pages_per_image_positive [OF assms(2)]
  by (simp add: pdf_to_images_body_def num_combined_images_eq Let_def)

text \<open>A conversion that returns has one payload and one caption per group.\<close>

lemma pdf_to_images_body_returned:
  assumes z: "get_zoom_factor quality = Inr z"
    and p: "get_pages_per_image pdf_quality = Inr p"
    and r: "pdf_to_images_body lib file_name doc quality pdf_quality = Inr (imgs, caps)"
  shows "imgs = map (\<lambda>g. group_payload lib doc z (group_bounds p (length doc) g))
                  [0..<(length doc + p - 1) div p]"
    and "caps = map (\<lambda>g. caption file_name (fst (group_bounds p (length doc) g))
                             (snd (group_bounds p (length doc) g)))
                  [0..<(length doc + p - 1) div p]"
proof -
  let ?f = "\<lambda>g. group_payload lib doc z (group_bounds p (length doc) g)"
  let ?g = "\<lambda>g. caption file_name (fst (group_bounds p (length doc) g))
                   (snd (group_bounds p (length doc) g))"
  have loop: "for_loop (process_group lib file_name doc z p (length doc))
          [0..<(length doc + p - 1) div p] ([], []) = Inr (imgs, caps)"
    using r by (simp only: pdf_to_images_body_unfold [OF z p])
  have step: "\<And>x acc acc'. x \<in> set [0..<(length doc + p - 1) div p] \<Longrightarrow>
          process_group lib file_name doc z p (length doc) x acc = Inr acc' \<Longrightarrow>
          acc' = (fst acc @ [?f x], snd acc @ [?g x])"
    by (rule process_group_appended)
  from for_loop_collected [of "[0..<(length doc + p - 1) div p]"
      "process_group lib file_name doc z p (length doc)" ?f ?g "([], [])" "(imgs, caps)",
      OF step loop]
  show "imgs = map ?f [0..<(length doc + p - 1) div p]"
    and "caps = map ?g [0..<(length doc + p - 1) div p]"
    by simp_all
qed

text \<open>It returns when every page renders and the encoder accepts every composite.\<close>

lemma pdf_to_images_body_ok:
  assumes pages: "\<forall>k < length doc. \<exists>pix. get_pixmap (doc ! k) z = Inr pix"
    and enc: "\<forall>g < (length doc + p - 1) div p.
                jpeg_accepts lib (encoded (group_payload lib doc z (group_bounds p (length doc) g)))"
    and z: "get_zoom_factor quality = Inr z"
    and p: "get_pages_per_image pdf_quality = Inr p"
  shows "pdf_to_images_body lib file_name doc quality pdf_quality =
           Inr (map (\<lambda>g. group_payload lib doc z (group_bounds p (length doc) g))
                  [0..<(length doc + p - 1) div p],
                map (\<lambda>g. caption file_name (fst (group_bounds p (length doc) g))
                            (snd (group_bounds p (length doc) g)))
                  [0..<(length doc + p - 1) div p])"
proof -
  have pos: "0 < p" using p by (rule pages_per_image_positive)
  let ?f = "\<lambda>g. group_payload lib doc z (group_bounds p (length doc) g)"
  let ?g = "\<lambda>g. caption file_name (fst (group_bounds p (length doc) g))
                   (snd (group_bounds p (length doc) g))"
  have body: "\<And>x acc. x \<in> set [0..<(length doc + p - 1) div p] \<Longrightarrow>
          process_group lib file_name doc z p (length doc) x acc =
          Inr (fst acc @ [?f x], snd acc @ [?g x])"
    using enc by (intro process_group_ok [OF pages _ pos]) simp_all
  have "for_loop (process_group lib file_name doc z p (length doc))
          [0..<(length doc + p - 1) div p] ([], []) =
        Inr (map ?f [0..<(length doc + p - 1) div p],
             map ?g [0..<(length doc + p - 1) div p])"
    using for_loop_collect [of "[0..<(length doc + p - 1) div p]"
        "process_group lib file_name doc z p (length doc)" ?f ?g "([], [])", OF body]
    by simp
  then show ?thesis
    by (simp only: pdf_to_images_body_unfold [OF z p])
qed

lemma pdf_to_images_body_raises:
  assumes i: "i < length doc" and z: "get_zoom_factor quality = Inr z"
    and bad: "get_pixmap (doc ! i) z = Inl e"
  shows "\<exists>e'. pdf_to_images_body lib file_name doc quality pdf_quality = Inl e'"
proof (cases "get_pages_per_image pdf_quality")
  case (Inl e')
  then show ?thesis using z by (simp add: pdf_to_images_body_def)
next
  case (Inr p)
  then have pos: "0 < p" by (rule pages_per_image_positive)
  have "i div p \<in> set [0..<(length doc + p - 1) div p]"
    using failing_group_in_range [OF i pos] by simp
  moreover have "\<And>s. \<exists>e'. process_group lib file_name doc z p (length doc) (i div p) s = Inl e'"
    by (rule process_group_raises [OF i bad pos])
  ultimately have "\<exists>e'. for_loop (process_group lib file_name doc z p (length doc))
                      [0..<(length doc + p - 1) div p] ([], []) = Inl e'"
    by (rule for_loop_raises)
  then show ?thesis
    by (simp only: pdf_to_images_body_unfold [OF z Inr])
qed

text \<open>The four results of \<open>pdf_to_images\<close> on a document that opens.\<close>

lemma pdf_to_images_aborted:
  assumes "pdf_open f = Inr doc"
    and "pdf_to_images_body lib (name f) doc quality pdf_quality = Inl e"
  shows "out_images (pdf_to_images lib f quality pdf_quality) = []"
    and "out_captions (pdf_to_images lib f quality pdf_quality) = []"
    and "reported (pdf_to_images lib f quality pdf_quality) =
           [''Error processing PDF '' @ name f @ '': '' @ str_exn e]"
    and "handle (pdf_to_images lib f quality pdf_quality) = Open"
  using assms by (simp_all add: pdf_to_images_def)

lemma pdf_to_images_converted:
  assumes "pdf_open f = Inr doc"
    and "pdf_to_images_body lib (name f) doc quality pdf_quality = Inr (imgs, caps)"
  shows "out_images (pdf_to_images lib f quality pdf_quality) = imgs"
    and "out_captions (pdf_to_images lib f quality pdf_quality) = caps"
    and "reported (pdf_to_images lib f quality pdf_quality) = []"
    and "handle (pdf_to_images lib f quality pdf_quality) = Closed"
  using assms by (simp_all add: pdf_to_images_def)

text \<open>The output of \<open>pdf_to_images\<close> in terms of the spans of \<open>page_groups\<close>: what it
  returns when it reports nothing, that it returns nothing when it reports, and when
  it reports nothing.\<close>

lemma pdf_to_images_output:
  assumes opened: "pdf_open f = Inr doc"
    and z: "get_zoom_factor quality = Inr z"
    and p: "get_pages_per_image pdf_quality = Inr p"
    and gs: "page_groups (length doc) p = Inr gs"
  shows "reported (pdf_to_images lib f quality pdf_quality) = [] \<Longrightarrow>
           out_images (pdf_to_images lib f quality pdf_quality) =
             map (group_payload lib doc z) gs \<and>
           out_captions (pdf_to_images lib f quality pdf_quality) =
             map (\<lambda>(s, e). caption (name f) s e) gs"
    and "reported (pdf_to_images lib f quality pdf_quality) \<noteq> [] \<Longrightarrow>
           out_images (pdf_to_images lib f quality pdf_quality) = [] \<and>
           out_captions (pdf_to_images lib f quality pdf_quality) = []"
    and "\<forall>k < length doc. \<exists>pix. get_pixmap (doc ! k) z = Inr pix \<Longrightarrow>
         \<forall>se \<in> set gs. jpeg_accepts lib (encoded (group_payload lib doc z se)) \<Longrightarrow>
           reported (pdf_to_images lib f quality pdf_quality) = []"
proof -
  have pos: "0 < p" using p by (rule pages_per_image_positive)
  have gs_eq: "gs = map (group_bounds p (length doc)) [0..<(length doc + p - 1) div p]"
    using gs pos by (simp add: page_groups_eq)
  show "out_images (pdf_to_images lib f quality pdf_quality) =
             map (group_payload lib doc z) gs \<and>
           out_captions (pdf_to_images lib f quality pdf_quality) =
             map (\<lambda>(s, e). caption (name f) s e) gs"
    if "reported (pdf_to_images lib f quality pdf_quality) = []"
  proof (cases "pdf_to_images_body lib (name f) doc quality pdf_quality")
    case (Inl e)
    from pdf_to_images_aborted(3) [OF opened Inl] that show ?thesis by simp
  next
    case (Inr r)
    obtain imgs caps where r: "r = (imgs, caps)" by (cases r)
    note body = Inr [unfolded r]
    note ret = pdf_to_images_body_returned [OF z p body]
    note conv = pdf_to_images_converted [OF opened body]
    show ?thesis
      unfolding conv(1) conv(2) ret(1) ret(2) gs_eq
      by (simp add: comp_def case_prod_beta)
  qed
  show "out_images (pdf_to_images lib f quality pdf_quality) = [] \<and>
        out_captions (pdf_to_images lib f quality pdf_quality) = []"
    if "reported (pdf_to_images lib f quality pdf_quality) \<noteq> []"
  proof (cases "pdf_to_images_body lib (name f) doc quality pdf_quality")
    case (Inl e)
    from pdf_to_images_aborted(1,2) [OF opened Inl] show ?thesis by simp
  next
    case (Inr r)
    obtain imgs caps where r: "r = (imgs, caps)" by (cases r)
    from pdf_to_images_converted(3) [OF opened Inr [unfolded r]] that show ?thesis by simp
  qed
  show "reported (pdf_to_images lib f quality pdf_quality) = []"
    if pages: "\<forall>k < length doc. \<exists>pix. get_pixmap (doc ! k) z = Inr pix"
      and enc: "\<forall>se \<in> set gs. jpeg_accepts lib (encoded (group_payload lib doc z se))"
  proof -
    have "\<forall>g < (length doc + p - 1) div p.
            jpeg_accepts lib (encoded (group_payload lib doc z (group_bounds p (length doc) g)))"
      using enc by (simp add: gs_eq)
    from pdf_to_images_body_ok [OF pages this z p, of "name f"]
    show ?thesis by (rule pdf_to_images_converted(3) [OF opened])
  qed
qed

section \<open>Properties of the integer-tier pipelines\<close>

lemma tier_positive: "0 < get_pages_per_image_tier q"
  by (simp add: get_pages_per_image_tier_def pages_map_def)

lemma paste_loop_v2_ok:
  assumes "\<forall>jp \<in> set items. snd jp < length doc \<and> (\<exists>pix. get_pixmap (doc ! snd jp) 2 = Inr pix)"
  shows "\<exists>c'. for_loop (paste_page_v2 lib doc rh) items c = Inr c'"
  using assms
proof (induction items arbitrary: c)
  case Nil
  then show ?case by simp
next
  case (Cons jp items)
  from Cons.prems obtain pix where
    "snd jp < length doc" "get_pixmap (doc ! snd jp) 2 = Inr pix" by auto
  then obtain c1 where "paste_page_v2 lib doc rh jp c = Inr c1"
    by (simp add: paste_page_v2_def load_page_def)
  moreover obtain c' where "for_loop (paste_page_v2 lib doc rh) items c1 = Inr c'"
    using Cons.IH [of c1] Cons.prems by auto
  ultimately show ?case by simp
qed

lemma stack_pages_v2_ok:
  assumes "i < length doc" and "e \<le> length doc"
    and "\<forall>k < length doc. \<exists>pix. get_pixmap (doc ! k) 2 = Inr pix"
  shows "\<exists>c. stack_pages_v2 lib doc i e = Inr c"
proof -
  have "\<forall>jp \<in> set (enumerate 0 [i..<e]).
          snd jp < length doc \<and> (\<exists>pix. get_pixmap (doc ! snd jp) 2 = Inr pix)"
    using assms(2,3) by (auto simp: in_set_enumerate_eq)
  from paste_loop_v2_ok [OF this] show ?thesis
    using assms(1) by (simp add: stack_pages_v2_def load_page_def Let_def)
qed

lemma process_set_v2_appended:
  assumes "process_set_v2 lib file_name doc se acc = Inr acc'"
  shows "acc' = acc @ [set_payload lib file_name doc se]"
  using assms
  by (auto simp: process_set_v2_def save_jpeg_def split: sum.splits if_splits)

lemma process_set_v2_ok:
  assumes "stack_pages_v2 lib doc (fst se) (snd se) = Inr c"
    and "jpeg_accepts lib (projr (stack_pages_v2 lib doc (fst se) (snd se)))"
  shows "process_set_v2 lib file_name doc se acc = Inr (acc @ [set_payload lib file_name doc se])"
  using assms by (simp add: process_set_v2_def save_jpeg_def)

text \<open>The output of \<open>convert_pdf_to_images\<close> of \<^verbatim>\<open>img_pdf_v2.py\<close> in terms of the spans it
  goes through.\<close>

lemma convert_pdf_to_images_v2_output:
  assumes opened: "pdf_open f = Inr doc"
  shows "snd (convert_pdf_to_images_v2 lib f q) = [] \<Longrightarrow>
           fst (convert_pdf_to_images_v2 lib f q) =
             map (set_payload lib (name f) doc)
               (page_sets_v2 (length doc) (get_pages_per_image_tier q))"
    and "\<forall>k < length doc. \<exists>pix. get_pixmap (doc ! k) 2 = Inr pix \<Longrightarrow>
         \<forall>se \<in> set (page_sets_v2 (length doc) (get_pages_per_image_tier q)).
            jpeg_accepts lib (projr (stack_pages_v2 lib doc (fst se) (snd se))) \<Longrightarrow>
           snd (convert_pdf_to_images_v2 lib f q) = []"
proof -
  let ?p = "get_pages_per_image_tier q"
  let ?sets = "page_sets_v2 (length doc) ?p"
  have pos: "0 < ?p" by (rule tier_positive)
  have conv: "convert_pdf_to_images_v2 lib f q =
        (case for_loop (process_set_v2 lib (name f) doc) ?sets [] of
           Inl e \<Rightarrow> ([], [''Error processing PDF: '' @ str_exn e])
         | Inr processed \<Rightarrow> (processed, []))"
    using opened pos by (simp add: convert_pdf_to_images_v2_def Let_def)
  show "fst (convert_pdf_to_images_v2 lib f q) = map (set_payload lib (name f) doc) ?sets"
    if "snd (convert_pdf_to_images_v2 lib f q) = []"
  proof (cases "for_loop (process_set_v2 lib (name f) doc) ?sets []")
    case (Inl e)
    then show ?thesis using that by (simp add: conv)
  next
    case (Inr processed)
    have "processed = [] @ map (set_payload lib (name f) doc) ?sets"
      using process_set_v2_appended Inr by (rule for_loop_collected1)
    then show ?thesis using Inr by (simp add: conv)
  qed
  show "snd (convert_pdf_to_images_v2 lib f q) = []"
    if pages: "\<forall>k < length doc. \<exists>pix. get_pixmap (doc ! k) 2 = Inr pix"
      and enc: "\<forall>se \<in> set ?sets. jpeg_accepts lib (projr (stack_pages_v2 lib doc (fst se) (snd se)))"
  proof -
    have step: "process_set_v2 lib (name f) doc se acc =
                Inr (acc @ [set_payload lib (name f) doc se])"
      if se: "se \<in> set ?sets" for se acc
    proof -
      from se obtain k where k: "k < (length doc + ?p - 1) div ?p"
        and eq: "se = group_bounds ?p (length doc) k"
        by (auto simp: page_sets_v2_eq [OF pos])
      have "fst se < length doc"
        using group_start_in_range [OF pos k] by (simp add: eq group_bounds_def Let_def)
      moreover have "snd se \<le> length doc"
        by (simp add: eq group_bounds_def Let_def)
      ultimately obtain c where "stack_pages_v2 lib doc (fst se) (snd se) = Inr c"
        using stack_pages_v2_ok [OF _ _ pages] by blast
      then show ?thesis using enc se by (intro process_set_v2_ok) auto
    qed
    have "for_loop (process_set_v2 lib (name f) doc) ?sets [] =
          Inr ([] @ map (set_payload lib (name f) doc) ?sets)"
      using step by (rule for_loop_collect1)
    then show ?thesis by (simp add: conv)
  qed
qed

text \<open>\<open>convert_pdf_to_images\<close> of \<^verbatim>\<open>st_img_4o_pdf.py\<close> returns the empty list when the
  document has fewer pages than one full set.\<close>

lemma convert_pdf_to_images_st_short:
  assumes "pdf2image_pages f = Inr imgs" and "length imgs < get_pages_per_image_tier q"
  shows "convert_pdf_to_images_st f q = Inr []"
proof -
  have pos: "0 < get_pages_per_image_tier q" by (rule tier_positive)
  have "full_sets_st (length imgs) (get_pages_per_image_tier q) = []"
    using assms(2) by (simp add: full_sets_st_eq [OF pos])
  then show ?thesis
    using assms(1) pos by (simp add: convert_pdf_to_images_st_def Let_def)
qed

text \<open>
  C1, as amended. For \<open>total_pages \<ge> 1\<close> and \<open>p \<ge> 1\<close> the group loop of \<open>pdf_to_images\<close>
  (\<^verbatim>\<open>anthropic_ocr.py\<close>) goes through exactly \<open>ceil(total_pages / p)\<close> groups; group \<open>k\<close>
  spans the pages from \<open>k * p\<close> up to, not including, \<open>min((k + 1) * p, total_pages)\<close>.
  Every group is non-empty and has at most \<open>p\<close> pages, every group but the last has
  exactly \<open>p\<close> and ends where the next one starts, and the groups laid end to end are
  the pages \<open>0, \<dots>, total_pages - 1\<close> in order. Whenever \<open>pdf_to_images\<close> reports no
  error, it returns exactly one payload and one caption per group, in order, the short
  last group included, each payload the encoded composite of the rasters of its
  group's pages; and it reports no error when every page renders and the encoder
  accepts each of these composites. \<open>convert_pdf_to_images\<close> of \<^verbatim>\<open>img_pdf_v2.py\<close> goes
  through the same spans and, on the same terms, returns one named image per span.
  The loop of \<^verbatim>\<open>st_img_4o_pdf.py\<close> lets only the full sets through its guard, the
  \<open>total_pages div p\<close> spans of exactly \<open>p\<close> pages, and its conversion returns the empty
  list for a document shorter than one set.
\<close>

theorem page_grouping:
  assumes "1 \<le> total_pages" and "1 \<le> p"
  shows "\<exists>gs.
           page_groups total_pages p = Inr gs \<and>
           length gs = nat \<lceil>(of_nat total_pages :: rat) / of_nat p\<rceil> \<and>
           (\<forall>k < length gs.
              gs ! k = (k * p, min ((k + 1) * p) total_pages) \<and>
              fst (gs ! k) < snd (gs ! k) \<and>
              snd (gs ! k) - fst (gs ! k) \<le> p \<and>
              (Suc k < length gs \<longrightarrow>
                 snd (gs ! k) - fst (gs ! k) = p \<and> snd (gs ! k) = fst (gs ! Suc k))) \<and>
           concat (map (\<lambda>(s, e). [s..<e]) gs) = [0..<total_pages] \<and>
           (\<forall>lib f doc quality pdf_quality z.
              pdf_open f = Inr doc \<longrightarrow> length doc = total_pages \<longrightarrow>
              get_zoom_factor quality = Inr z \<longrightarrow>
              get_pages_per_image pdf_quality = Inr p \<longrightarrow>
              (reported (pdf_to_images lib f quality pdf_quality) = [] \<longrightarrow>
                 out_images (pdf_to_images lib f quality pdf_quality) =
                   map (group_payload lib doc z) gs \<and>
                 out_captions (pdf_to_images lib f quality pdf_quality) =
                   map (\<lambda>(s, e). caption (name f) s e) gs) \<and>
              ((\<forall>k < length doc. \<exists>pix. get_pixmap (doc ! k) z = Inr pix) \<longrightarrow>
               (\<forall>se \<in> set gs. jpeg_accepts lib (encoded (group_payload lib doc z se))) \<longrightarrow>
                 reported (pdf_to_images lib f quality pdf_quality) = [])) \<and>
           (\<forall>lib f doc q.
              pdf_open f = Inr doc \<longrightarrow> length doc = total_pages \<longrightarrow>
              get_pages_per_image_tier q = p \<longrightarrow>
              (snd (convert_pdf_to_images_v2 lib f q) = [] \<longrightarrow>
                 fst (convert_pdf_to_images_v2 lib f q) =
                   map (set_payload lib (name f) doc) gs) \<and>
              ((\<forall>k < length doc. \<exists>pix. get_pixmap (doc ! k) 2 = Inr pix) \<longrightarrow>
               (\<forall>se \<in> set gs.
                  jpeg_accepts lib (projr (stack_pages_v2 lib doc (fst se) (snd se)))) \<longrightarrow>
                 snd (convert_pdf_to_images_v2 lib f q) = [])) \<and>
           page_sets_v2 total_pages p = gs \<and>
           full_sets_st total_pages p =
             map (\<lambda>k. (k * p, k * p + p)) [0..<total_pages div p] \<and>
           (\<forall>f q imgs.
              pdf2image_pages f = Inr imgs \<longrightarrow> length imgs = total_pages \<longrightarrow>
              get_pages_per_image_tier q = p \<longrightarrow> total_pages < p \<longrightarrow>
              convert_pdf_to_images_st f q = Inr [])"
proof -
  have pos: "0 < p" using assms(2) by simp
  define n where "n = (total_pages + p - 1) div p"
  define gs where "gs = map (group_bounds p total_pages) [0..<n]"
  have groups: "page_groups total_pages p = Inr gs"
    using pos by (simp add: page_groups_eq gs_def n_def)
  have len: "length gs = n" by (simp add: gs_def)
  have count: "length gs = nat \<lceil>(of_nat total_pages :: rat) / of_nat p\<rceil>"
    using pos by (simp add: len n_def ceiling_quotient)
  have nth: "gs ! k = (k * p, min ((k + 1) * p) total_pages) \<and>
             fst (gs ! k) < snd (gs ! k) \<and>
             snd (gs ! k) - fst (gs ! k) \<le> p \<and>
             (Suc k < length gs \<longrightarrow>
                snd (gs ! k) - fst (gs ! k) = p \<and> snd (gs ! k) = fst (gs ! Suc k))"
    if "k < length gs" for k
  proof -
    have k: "k < (total_pages + p - 1) div p" using that len by (simp add: n_def)
    have at: "gs ! k = group_bounds p total_pages k"
      using that len by (simp add: gs_def)
    have nxt: "gs ! Suc k = group_bounds p total_pages (Suc k)" if "Suc k < length gs"
      using that len by (simp add: gs_def)
    have a: "gs ! k = (k * p, min ((k + 1) * p) total_pages)"
      using group_bounds_nth(1) [OF pos k] by (simp only: at)
    have b: "fst (gs ! k) < snd (gs ! k)"
      using group_bounds_nth(2) [OF pos k] by (simp only: at)
    have c: "snd (gs ! k) - fst (gs ! k) \<le> p"
      using group_bounds_nth(3) [OF pos k] by (simp only: at)
    have d: "snd (gs ! k) - fst (gs ! k) = p \<and> snd (gs ! k) = fst (gs ! Suc k)"
      if "Suc k < length gs"
    proof -
      have "Suc k < (total_pages + p - 1) div p" using that len by (simp add: n_def)
      from group_bounds_nth(4) [OF pos k this] show ?thesis
        unfolding at nxt [OF that] .
    qed
    show ?thesis using a b c d by blast
  qed
  have cover: "concat (map (\<lambda>(s, e). [s..<e]) gs) = [0..<total_pages]"
    unfolding gs_def n_def using pos by (rule groups_cover)
  have v2: "page_sets_v2 total_pages p = gs"
    using pos by (simp add: page_sets_v2_eq gs_def n_def)
  have st: "full_sets_st total_pages p =
              map (\<lambda>k. (k * p, k * p + p)) [0..<total_pages div p]"
    using pos by (rule full_sets_st_eq)
  have emit: "(reported (pdf_to_images lib f quality pdf_quality) = [] \<longrightarrow>
                 out_images (pdf_to_images lib f quality pdf_quality) =
                   map (group_payload lib doc z) gs \<and>
                 out_captions (pdf_to_images lib f quality pdf_quality) =
                   map (\<lambda>(s, e). caption (name f) s e) gs) \<and>
              ((\<forall>k < length doc. \<exists>pix. get_pixmap (doc ! k) z = Inr pix) \<longrightarrow>
               (\<forall>se \<in> set gs. jpeg_accepts lib (encoded (group_payload lib doc z se))) \<longrightarrow>
                 reported (pdf_to_images lib f quality pdf_quality) = [])"
    if "pdf_open f = Inr doc" "length doc = total_pages" "get_zoom_factor quality = Inr z"
      "get_pages_per_image pdf_quality = Inr p"
    for lib f doc quality pdf_quality z
  proof -
    have g: "page_groups (length doc) p = Inr gs" using groups that(2) by simp
    note out = pdf_to_images_output [where lib = lib, OF that(1) that(3) that(4) g]
    show ?thesis using out(1) out(3) by blast
  qed
  have emit2: "(snd (convert_pdf_to_images_v2 lib f q) = [] \<longrightarrow>
                 fst (convert_pdf_to_images_v2 lib f q) =
                   map (set_payload lib (name f) doc) gs) \<and>
              ((\<forall>k < length doc. \<exists>pix. get_pixmap (doc ! k) 2 = Inr pix) \<longrightarrow>
               (\<forall>se \<in> set gs.
                  jpeg_accepts lib (projr (stack_pages_v2 lib doc (fst se) (snd se)))) \<longrightarrow>
                 snd (convert_pdf_to_images_v2 lib f q) = [])"
    if "pdf_open f = Inr doc" "length doc = total_pages" "get_pages_per_image_tier q = p"
    for lib f doc q
  proof -
    have sets: "page_sets_v2 (length doc) (get_pages_per_image_tier q) = gs"
      using v2 that(2,3) by simp
    note out = convert_pdf_to_images_v2_output [where lib = lib and q = q, OF that(1), unfolded sets]
    show ?thesis using out(1) out(2) by blast
  qed
  have short: "convert_pdf_to_images_st f q = Inr []"
    if "pdf2image_pages f = Inr imgs" "length imgs = total_pages"
      "get_pages_per_image_tier q = p" "total_pages < p"
    for f q imgs
    using that by (intro convert_pdf_to_images_st_short [of f imgs]) simp_all
  show ?thesis
    using groups count nth cover emit emit2 v2 st short by (intro exI [of _ gs]) blast
qed

theorem page_grouping_witness:
  "(1::nat) \<le> 10 \<and> (1::nat) \<le> 4 \<and>
   page_groups 10 4 = Inr [(0, 4), (4, 8), (8, 10)] \<and>
   page_sets_v2 10 4 = [(0, 4), (4, 8), (8, 10)] \<and>
   full_sets_st 10 4 = [(0, 4), (4, 8)] \<and>
   reported (pdf_to_images example_pil
     (pdf_upload ''doc.pdf'' (replicate 10 (plain_page 20 30))) ''High'' ''Medium'') = [] \<and>
   out_captions (pdf_to_images example_pil
     (pdf_upload ''doc.pdf'' (replicate 10 (plain_page 20 30))) ''High'' ''Medium'') =
     [''doc.pdf - Pages 1-4'', ''doc.pdf - Pages 5-8'', ''doc.pdf - Pages 9-10''] \<and>
   map (\<lambda>j. (width (encoded j), height (encoded j), jpeg_quality j))
     (out_images (pdf_to_images example_pil
        (pdf_upload ''doc.pdf'' (replicate 10 (plain_page 20 30))) ''High'' ''Medium'')) =
     [(14, 84, 95), (14, 84, 95), (14, 42, 95)] \<and>
   snd (convert_pdf_to_images_v2 example_pil
     (pdf_upload ''doc.pdf'' (replicate 10 (plain_page 20 30))) 3) = [] \<and>
   map jpeg_name (fst (convert_pdf_to_images_v2 example_pil
     (pdf_upload ''doc.pdf'' (replicate 10 (plain_page 20 30))) 3)) =
     [''doc_pages_1-4.jpg'', ''doc_pages_5-8.jpg'', ''doc_pages_9-10.jpg'']"
proof -
  let ?doc = "replicate 10 (plain_page 20 30)"
  let ?f = "pdf_upload ''doc.pdf'' ?doc"
  let ?gs = "[(0, 4), (4, 8), (8, 10)] :: (nat \<times> nat) list"
  have h1: "(1::nat) \<le> 10" and h2: "(1::nat) \<le> 4" by simp_all
  from page_grouping [OF h1 h2] obtain gs where
    groups: "page_groups 10 4 = Inr gs"
    and emit: "\<forall>lib f doc quality pdf_quality z.
              pdf_open f = Inr doc \<longrightarrow> length doc = 10 \<longrightarrow>
              get_zoom_factor quality = Inr z \<longrightarrow>
              get_pages_per_image pdf_quality = Inr 4 \<longrightarrow>
              (reported (pdf_to_images lib f quality pdf_quality) = [] \<longrightarrow>
                 out_images (pdf_to_images lib f quality pdf_quality) =
                   map (group_payload lib doc z) gs \<and>
                 out_captions (pdf_to_images lib f quality pdf_quality) =
                   map (\<lambda>(s, e). caption (name f) s e) gs) \<and>
              ((\<forall>k < length doc. \<exists>pix. get_pixmap (doc ! k) z = Inr pix) \<longrightarrow>
               (\<forall>se \<in> set gs. jpeg_accepts lib (encoded (group_payload lib doc z se))) \<longrightarrow>
                 reported (pdf_to_images lib f quality pdf_quality) = [])"
    and emit2: "\<forall>lib f doc q.
              pdf_open f = Inr doc \<longrightarrow> length doc = 10 \<longrightarrow>
              get_pages_per_image_tier q = 4 \<longrightarrow>
              (snd (convert_pdf_to_images_v2 lib f q) = [] \<longrightarrow>
                 fst (convert_pdf_to_images_v2 lib f q) =
                   map (set_payload lib (name f) doc) gs) \<and>
              ((\<forall>k < length doc. \<exists>pix. get_pixmap (doc ! k) 2 = Inr pix) \<longrightarrow>
               (\<forall>se \<in> set gs.
                  jpeg_accepts lib (projr (stack_pages_v2 lib doc (fst se) (snd se)))) \<longrightarrow>
                 snd (convert_pdf_to_images_v2 lib f q) = [])"
    and v2: "page_sets_v2 10 4 = gs"
    and st: "full_sets_st 10 4 = map (\<lambda>k. (k * 4, k * 4 + 4)) [0..<10 div 4]"
    by blast
  have pg: "page_groups 10 4 = Inr ?gs" by code_simp
  have gs: "gs = ?gs" using groups pg by simp
  have st': "full_sets_st 10 4 = [(0, 4), (4, 8)]"
    unfolding st by code_simp
  have opened: "pdf_open ?f = Inr ?doc" and nm: "name ?f = ''doc.pdf''"
    by (simp_all add: pdf_upload_def)
  have len: "length ?doc = 10" by simp
  have z: "get_zoom_factor ''High'' = Inr (7 / 10)"
    by (simp add: get_zoom_factor_def zoom_quality_map_def)
  have p: "get_pages_per_image ''Medium'' = Inr 4"
    by (simp add: get_pages_per_image_def pages_quality_map_def)
  have tier: "get_pages_per_image_tier 3 = 4"
    by (simp add: get_pages_per_image_tier_def pages_map_def)
  have pages: "\<forall>k < length ?doc. \<exists>pix. get_pixmap (?doc ! k) z' = Inr pix" for z'
    by (simp add: plain_page_def)
  have dims: "map (\<lambda>j. (width (encoded j), height (encoded j), jpeg_quality j))
                (map (group_payload example_pil ?doc (7 / 10)) ?gs) =
              [(14, 84, 95), (14, 84, 95), (14, 42, 95)]"
    by code_simp
  have enc: "\<forall>se \<in> set gs. jpeg_accepts example_pil
               (encoded (group_payload example_pil ?doc (7 / 10) se))"
    unfolding gs by code_simp
  note e = emit [rule_format, OF opened len z p]
  have ok: "reported (pdf_to_images example_pil ?f ''High'' ''Medium'') = []"
    using e [THEN conjunct2] pages enc by blast
  have imgs: "out_images (pdf_to_images example_pil ?f ''High'' ''Medium'') =
              map (group_payload example_pil ?doc (7 / 10)) ?gs"
    and caps0: "out_captions (pdf_to_images example_pil ?f ''High'' ''Medium'') =
              map (\<lambda>(s, e). caption ''doc.pdf'' s e) ?gs"
    using e [THEN conjunct1] ok unfolding gs nm by blast+
  have caps1: "map (\<lambda>(s, e). caption ''doc.pdf'' s e) ?gs =
              [''doc.pdf - Pages 1-4'', ''doc.pdf - Pages 5-8'', ''doc.pdf - Pages 9-10'']"
    by code_simp
  have enc2: "\<forall>se \<in> set gs. jpeg_accepts example_pil
               (projr (stack_pages_v2 example_pil ?doc (fst se) (snd se)))"
    unfolding gs by code_simp
  note e2 = emit2 [rule_format, OF opened len tier]
  have ok2: "snd (convert_pdf_to_images_v2 example_pil ?f 3) = []"
    using e2 [THEN conjunct2] pages enc2 by blast
  have out2: "fst (convert_pdf_to_images_v2 example_pil ?f 3) =
              map (set_payload example_pil ''doc.pdf'' ?doc) ?gs"
    using e2 [THEN conjunct1] ok2 unfolding gs nm by blast
  have names: "map jpeg_name (map (set_payload example_pil ''doc.pdf'' ?doc) ?gs) =
               [''doc_pages_1-4.jpg'', ''doc_pages_5-8.jpg'', ''doc_pages_9-10.jpg'']"
    by code_simp
  show ?thesis
    using h1 h2 pg v2 st' ok
    unfolding gs imgs caps0 caps1 dims ok2 out2 names by simp
qed

text \<open>
  C1 as stated fails on \<^verbatim>\<open>st_img_4o_pdf.py\<close>: for a three-page document at tier 3 (four
  pages per image) the claim asks for one group holding pages 0 to 2, and the conversion
  returns the empty list; for ten pages and four pages per image the guard lets the
  two full sets through and not the remainder, where \<open>pdf_to_images\<close> has three groups.
\<close>

theorem remainder_dropped_counterexample:
  "convert_pdf_to_images_st
     (pdf_upload ''a.pdf'' [plain_page 100 100, plain_page 100 100, plain_page 100 100]) 3 =
     Inr [] \<and>
   get_pages_per_image_tier 3 = 4 \<and>
   nat \<lceil>(3::rat) / 4\<rceil> = 1 \<and>
   full_sets_st 10 4 = [(0, 4), (4, 8)] \<and>
   page_groups 10 4 = Inr [(0, 4), (4, 8), (8, 10)]"
proof -
  have tier: "get_pages_per_image_tier 3 = 4"
    by (simp add: get_pages_per_image_tier_def pages_map_def)
  have "range_from 0 3 4 = [0]"
    by (simp add: range_from.simps [of 0] range_from.simps [of 4])
  then have none: "full_sets_st 3 4 = []"
    by (simp add: full_sets_st_def)
  have conv: "convert_pdf_to_images_st
     (pdf_upload ''a.pdf'' [plain_page 100 100, plain_page 100 100, plain_page 100 100]) 3 =
     Inr []"
    using none
    by (simp add: convert_pdf_to_images_st_def pdf_upload_def tier numeral_3_eq_3)
  have ceil: "nat \<lceil>(3::rat) / 4\<rceil> = 1" by code_simp
  have st: "full_sets_st 10 4 = [(0, 4), (4, 8)]" by code_simp
  have pg: "page_groups 10 4 = Inr [(0, 4), (4, 8), (8, 10)]" by code_simp
  show ?thesis using tier conv ceil st pg by simp
qed

section \<open>Failure, captions and the document handle\<close>

text \<open>Each upload adds to the three lists of the session what it would add to empty
  ones.\<close>

lemma process_file_adds:
  "processed_images (process_file lib q pq f s) =
     processed_images s @
     processed_images (process_file lib q pq f
       \<lparr>processed_images = [], image_captions = [], errors = []\<rparr>) \<and>
   image_captions (process_file lib q pq f s) =
     image_captions s @
     image_captions (process_file lib q pq f
       \<lparr>processed_images = [], image_captions = [], errors = []\<rparr>) \<and>
   errors (process_file lib q pq f s) =
     errors s @
     errors (process_file lib q pq f
       \<lparr>processed_images = [], image_captions = [], errors = []\<rparr>)"
  by (simp add: process_file_def Let_def split: sum.splits)

lemma fold_process_file_adds:
  "processed_images (fold (process_file lib q pq) fs s) =
     processed_images s @
     processed_images (fold (process_file lib q pq) fs
       \<lparr>processed_images = [], image_captions = [], errors = []\<rparr>) \<and>
   image_captions (fold (process_file lib q pq) fs s) =
     image_captions s @
     image_captions (fold (process_file lib q pq) fs
       \<lparr>processed_images = [], image_captions = [], errors = []\<rparr>) \<and>
   errors (fold (process_file lib q pq) fs s) =
     errors s @
     errors (fold (process_file lib q pq) fs
       \<lparr>processed_images = [], image_captions = [], errors = []\<rparr>)"
proof (induction fs arbitrary: s)
  case Nil
  then show ?case by simp
next
  case (Cons f fs)
  let ?e = "\<lparr>processed_images = [], image_captions = [], errors = []\<rparr>"
  note a = Cons.IH [of "process_file lib q pq f s"]
  note b = Cons.IH [of "process_file lib q pq f ?e"]
  note c = process_file_adds [of lib q pq f s]
  show ?case
    by (simp only: fold_simps a b c append_assoc)
qed

lemma process_uploads_append:
  "processed_images (process_uploads lib q pq (xs @ ys)) =
     processed_images (process_uploads lib q pq xs) @
     processed_images (process_uploads lib q pq ys) \<and>
   image_captions (process_uploads lib q pq (xs @ ys)) =
     image_captions (process_uploads lib q pq xs) @
     image_captions (process_uploads lib q pq ys) \<and>
   errors (process_uploads lib q pq (xs @ ys)) =
     errors (process_uploads lib q pq xs) @ errors (process_uploads lib q pq ys)"
  unfolding process_uploads_def fold_append comp_def
  by (rule fold_process_file_adds)

lemma process_uploads_pdf:
  assumes "file_type f = ''application/pdf''"
  shows "processed_images (process_uploads lib q pq [f]) = out_images (pdf_to_images lib f q pq)"
    and "image_captions (process_uploads lib q pq [f]) = out_captions (pdf_to_images lib f q pq)"
    and "errors (process_uploads lib q pq [f]) = reported (pdf_to_images lib f q pq)"
  using assms by (simp_all add: process_uploads_def process_file_def Let_def)

lemma process_uploads_single:
  "processed_images (process_uploads lib q pq [u]) =
     (if file_type u = ''application/pdf'' then out_images (pdf_to_images lib u q pq)
      else (case process_image lib u q of Inl e \<Rightarrow> [] | Inr j \<Rightarrow> [j]))"
  "image_captions (process_uploads lib q pq [u]) =
     (if file_type u = ''application/pdf'' then out_captions (pdf_to_images lib u q pq)
      else (case process_image lib u q of Inl e \<Rightarrow> [] | Inr j \<Rightarrow> [name u]))"
  "errors (process_uploads lib q pq [u]) =
     (if file_type u = ''application/pdf'' then reported (pdf_to_images lib u q pq)
      else (case process_image lib u q of
              Inl e \<Rightarrow> [''Error processing file '' @ name u @ '': '' @ str_exn e]
            | Inr j \<Rightarrow> []))"
  by (simp_all add: process_uploads_def process_file_def Let_def split: sum.splits)

text \<open>The batch is the concatenation, in upload order, of what each upload yields by
  itself.\<close>

lemma process_uploads_concat:
  "processed_images (process_uploads lib q pq files) =
     concat (map (\<lambda>u. if file_type u = ''application/pdf''
                        then out_images (pdf_to_images lib u q pq)
                        else (case process_image lib u q of Inl e \<Rightarrow> [] | Inr j \<Rightarrow> [j]))
               files) \<and>
   image_captions (process_uploads lib q pq files) =
     concat (map (\<lambda>u. if file_type u = ''application/pdf''
                        then out_captions (pdf_to_images lib u q pq)
                        else (case process_image lib u q of Inl e \<Rightarrow> [] | Inr j \<Rightarrow> [name u]))
               files) \<and>
   errors (process_uploads lib q pq files) =
     concat (map (\<lambda>u. if file_type u = ''application/pdf''
                        then reported (pdf_to_images lib u q pq)
                        else (case process_image lib u q of
                                Inl e \<Rightarrow> [''Error processing file '' @ name u @ '': '' @ str_exn e]
                              | Inr j \<Rightarrow> []))
               files)"
proof (induction files)
  case Nil
  then show ?case by (simp add: process_uploads_def)
next
  case (Cons u files)
  note a = process_uploads_append [of lib q pq "[u]" files, simplified]
  show ?case
    by (simp only: a process_uploads_single Cons.IH list.map concat.simps)
qed

text \<open>
  C3. When a page of an opened document fails to rasterise at the zoom factor in use,
  \<open>pdf_to_images\<close> returns no image and no caption and reports exactly one error, whatever
  the groups before that page produced. In a batch holding that document, the
  images and the captions are, in upload order, exactly those of the other uploads:
  for a PDF the lists \<open>pdf_to_images\<close> returns for it, for an image the result of
  \<open>process_image\<close> and the file name; the error list is that of the other uploads with
  the one report in the failing document's place. Every other PDF of the batch whose
  pages render and whose composites the encoder accepts contributes one payload and
  one caption per page group.
\<close>

theorem page_failure_aborts_document:
  assumes "pdf_open f = Inr doc" and "file_type f = ''application/pdf''"
    and "i < length doc" and "get_zoom_factor quality = Inr z"
    and "get_pixmap (doc ! i) z = Inl e"
  shows "out_images (pdf_to_images lib f quality pdf_quality) = [] \<and>
         out_captions (pdf_to_images lib f quality pdf_quality) = [] \<and>
         length (reported (pdf_to_images lib f quality pdf_quality)) = 1 \<and>
         processed_images (process_uploads lib quality pdf_quality (before @ f # after)) =
           concat (map (\<lambda>u. if file_type u = ''application/pdf''
                              then out_images (pdf_to_images lib u quality pdf_quality)
                              else (case process_image lib u quality of
                                      Inl e \<Rightarrow> [] | Inr j \<Rightarrow> [j]))
                     (before @ after)) \<and>
         image_captions (process_uploads lib quality pdf_quality (before @ f # after)) =
           concat (map (\<lambda>u. if file_type u = ''application/pdf''
                              then out_captions (pdf_to_images lib u quality pdf_quality)
                              else (case process_image lib u quality of
                                      Inl e \<Rightarrow> [] | Inr j \<Rightarrow> [name u]))
                     (before @ after)) \<and>
         errors (process_uploads lib quality pdf_quality (before @ f # after)) =
           errors (process_uploads lib quality pdf_quality before) @
           reported (pdf_to_images lib f quality pdf_quality) @
           errors (process_uploads lib quality pdf_quality after) \<and>
         (\<forall>u d p gs.
            u \<in> set (before @ after) \<longrightarrow> file_type u = ''application/pdf'' \<longrightarrow>
            pdf_open u = Inr d \<longrightarrow> get_pages_per_image pdf_quality = Inr p \<longrightarrow>
            page_groups (length d) p = Inr gs \<longrightarrow>
            (\<forall>k < length d. \<exists>pix. get_pixmap (d ! k) z = Inr pix) \<longrightarrow>
            (\<forall>se \<in> set gs. jpeg_accepts lib (encoded (group_payload lib d z se))) \<longrightarrow>
            reported (pdf_to_images lib u quality pdf_quality) = [] \<and>
            out_images (pdf_to_images lib u quality pdf_quality) =
              map (group_payload lib d z) gs \<and>
            out_captions (pdf_to_images lib u quality pdf_quality) =
              map (\<lambda>(s, e). caption (name u) s e) gs)"
proof -
  obtain e' where "pdf_to_images_body lib (name f) doc quality pdf_quality = Inl e'"
    using pdf_to_images_body_raises [OF assms(3) assms(4) assms(5)] by blast
  note ab = pdf_to_images_aborted [OF assms(1) this]
  note one = process_uploads_pdf [OF assms(2), of lib quality pdf_quality]
  note a1 = process_uploads_append [of lib quality pdf_quality before "f # after"]
  note a2 = process_uploads_append [of lib quality pdf_quality "[f]" after, simplified]
  note a3 = process_uploads_append [of lib quality pdf_quality before after]
  note cc = process_uploads_concat [of lib quality pdf_quality "before @ after"]
  have imgs: "processed_images (process_uploads lib quality pdf_quality (before @ f # after)) =
              processed_images (process_uploads lib quality pdf_quality (before @ after))"
    by (simp add: a1 a2 a3 one ab)
  have caps: "image_captions (process_uploads lib quality pdf_quality (before @ f # after)) =
              image_captions (process_uploads lib quality pdf_quality (before @ after))"
    by (simp add: a1 a2 a3 one ab)
  have errs: "errors (process_uploads lib quality pdf_quality (before @ f # after)) =
           errors (process_uploads lib quality pdf_quality before) @
           reported (pdf_to_images lib f quality pdf_quality) @
           errors (process_uploads lib quality pdf_quality after)"
    by (simp add: a1 a2 one)
  have others: "reported (pdf_to_images lib u quality pdf_quality) = [] \<and>
            out_images (pdf_to_images lib u quality pdf_quality) =
              map (group_payload lib d z) gs \<and>
            out_captions (pdf_to_images lib u quality pdf_quality) =
              map (\<lambda>(s, e). caption (name u) s e) gs"
    if "pdf_open u = Inr d" "get_pages_per_image pdf_quality = Inr p"
      "page_groups (length d) p = Inr gs"
      "\<forall>k < length d. \<exists>pix. get_pixmap (d ! k) z = Inr pix"
      "\<forall>se \<in> set gs. jpeg_accepts lib (encoded (group_payload lib d z se))"
    for u d p gs
  proof -
    note out = pdf_to_images_output [where lib = lib, OF that(1) assms(4) that(2) that(3)]
    have ok: "reported (pdf_to_images lib u quality pdf_quality) = []"
      using that(4) that(5) by (rule out(3))
    with out(1) show ?thesis by blast
  qed
  show ?thesis
    unfolding imgs caps cc [THEN conjunct1] cc [THEN conjunct2, THEN conjunct1]
    using ab(1) ab(2) ab(3) errs others by simp
qed

text \<open>A document or an image that does not decode is reported once and adds nothing
  to the batch.\<close>

lemma decode_failure_isolated:
  assumes "file_type f = ''application/pdf'' \<and> pdf_open f = Inl e \<or>
           file_type f \<noteq> ''application/pdf'' \<and> image_open f = Inl e"
  shows "processed_images (process_uploads lib q pq (before @ f # after)) =
           processed_images (process_uploads lib q pq before) @
           processed_images (process_uploads lib q pq after) \<and>
         image_captions (process_uploads lib q pq (before @ f # after)) =
           image_captions (process_uploads lib q pq before) @
           image_captions (process_uploads lib q pq after) \<and>
         length (errors (process_uploads lib q pq (before @ f # after))) =
           length (errors (process_uploads lib q pq before)) + 1 +
           length (errors (process_uploads lib q pq after))"
proof -
  have one: "processed_images (process_uploads lib q pq [f]) = [] \<and>
             image_captions (process_uploads lib q pq [f]) = [] \<and>
             length (errors (process_uploads lib q pq [f])) = 1"
    using assms
    by (auto simp: process_uploads_def process_file_def pdf_to_images_def
        process_image_def process_image_with_def Let_def)
  note a1 = process_uploads_append [of lib q pq before "f # after"]
  note a2 = process_uploads_append [of lib q pq "[f]" after, simplified]
  show ?thesis by (simp add: a1 a2 one)
qed

theorem page_failure_aborts_document_witness:
  "pdf_open (pdf_upload ''bad.pdf'' [plain_page 20 30, plain_page 20 30, broken_page]) =
     Inr [plain_page 20 30, plain_page 20 30, broken_page] \<and>
   file_type (pdf_upload ''bad.pdf'' [plain_page 20 30, plain_page 20 30, broken_page]) =
     ''application/pdf'' \<and>
   2 < length [plain_page 20 30, plain_page 20 30, broken_page] \<and>
   get_zoom_factor ''High'' = Inr (7 / 10) \<and>
   get_pixmap ([plain_page 20 30, plain_page 20 30, broken_page] ! 2) (7 / 10) =
     Inl (LibError ''cannot render page'') \<and>
   out_images (pdf_to_images example_pil
     (pdf_upload ''bad.pdf'' [plain_page 20 30, plain_page 20 30, broken_page])
     ''High'' ''High'') = [] \<and>
   out_captions (pdf_to_images example_pil
     (pdf_upload ''bad.pdf'' [plain_page 20 30, plain_page 20 30, broken_page])
     ''High'' ''High'') = [] \<and>
   map (\<lambda>j. (width (encoded j), height (encoded j), jpeg_quality j))
     (processed_images (process_uploads example_pil ''High'' ''High''
       ([pdf_upload ''one.pdf'' [plain_page 20 30],
         image_upload ''photo.png'' (plain_image ''RGB'' 10 10 [1, 2, 3])] @
        pdf_upload ''bad.pdf'' [plain_page 20 30, plain_page 20 30, broken_page] #
        [pdf_upload ''two.pdf'' [plain_page 20 30, plain_page 20 30, plain_page 20 30]]))) =
     [(14, 21, 95), (7, 7, 95), (14, 42, 95), (14, 21, 95)] \<and>
   image_captions (process_uploads example_pil ''High'' ''High''
     ([pdf_upload ''one.pdf'' [plain_page 20 30],
       image_upload ''photo.png'' (plain_image ''RGB'' 10 10 [1, 2, 3])] @
      pdf_upload ''bad.pdf'' [plain_page 20 30, plain_page 20 30, broken_page] #
      [pdf_upload ''two.pdf'' [plain_page 20 30, plain_page 20 30, plain_page 20 30]])) =
     [''one.pdf - Page 1'', ''photo.png'', ''two.pdf - Pages 1-2'', ''two.pdf - Page 3''] \<and>
   errors (process_uploads example_pil ''High'' ''High''
     ([pdf_upload ''one.pdf'' [plain_page 20 30],
       image_upload ''photo.png'' (plain_image ''RGB'' 10 10 [1, 2, 3])] @
      pdf_upload ''bad.pdf'' [plain_page 20 30, plain_page 20 30, broken_page] #
      [pdf_upload ''two.pdf'' [plain_page 20 30, plain_page 20 30, plain_page 20 30]])) =
     [''Error processing PDF bad.pdf: cannot render page'']"
proof -
  let ?doc = "[plain_page 20 30, plain_page 20 30, broken_page]"
  let ?bad = "pdf_upload ''bad.pdf'' ?doc"
  let ?one = "pdf_upload ''one.pdf'' [plain_page 20 30]"
  let ?img = "image_upload ''photo.png'' (plain_image ''RGB'' 10 10 [1, 2, 3])"
  let ?two = "pdf_upload ''two.pdf'' [plain_page 20 30, plain_page 20 30, plain_page 20 30]"
  let ?U = "\<lambda>u. if file_type u = ''application/pdf''
                  then out_images (pdf_to_images example_pil u ''High'' ''High'')
                  else (case process_image example_pil u ''High'' of
                          Inl e \<Rightarrow> [] | Inr j \<Rightarrow> [j])"
  let ?C = "\<lambda>u. if file_type u = ''application/pdf''
                  then out_captions (pdf_to_images example_pil u ''High'' ''High'')
                  else (case process_image example_pil u ''High'' of
                          Inl e \<Rightarrow> [] | Inr j \<Rightarrow> [name u])"
  have h1: "pdf_open ?bad = Inr ?doc" by (simp add: pdf_upload_def)
  have h2: "file_type ?bad = ''application/pdf''" by (simp add: pdf_upload_def)
  have h3: "2 < length ?doc" by simp
  have h4: "get_zoom_factor ''High'' = Inr (7 / 10)"
    by (simp add: get_zoom_factor_def zoom_quality_map_def)
  have h5: "get_pixmap (?doc ! 2) (7 / 10) = Inl (LibError ''cannot render page'')"
    by (simp add: broken_page_def)
  note t = page_failure_aborts_document [OF h1 h2 h3 h4 h5, of example_pil "''High''"
      "[?one, ?img]" "[?two]"]
  have imgs: "processed_images (process_uploads example_pil ''High'' ''High''
                ([?one, ?img] @ ?bad # [?two])) = concat (map ?U ([?one, ?img] @ [?two]))"
    using t by blast
  have caps: "image_captions (process_uploads example_pil ''High'' ''High''
                ([?one, ?img] @ ?bad # [?two])) = concat (map ?C ([?one, ?img] @ [?two]))"
    using t by blast
  have errs: "errors (process_uploads example_pil ''High'' ''High''
                ([?one, ?img] @ ?bad # [?two])) =
              errors (process_uploads example_pil ''High'' ''High'' [?one, ?img]) @
              reported (pdf_to_images example_pil ?bad ''High'' ''High'') @
              errors (process_uploads example_pil ''High'' ''High'' [?two])"
    using t by blast
  have none: "out_images (pdf_to_images example_pil ?bad ''High'' ''High'') = []"
    "out_captions (pdf_to_images example_pil ?bad ''High'' ''High'') = []"
    using t by blast+
  have d: "map (\<lambda>j. (width (encoded j), height (encoded j), jpeg_quality j))
             (concat (map ?U ([?one, ?img] @ [?two]))) =
           [(14, 21, 95), (7, 7, 95), (14, 42, 95), (14, 21, 95)]"
    by code_simp
  have c: "concat (map ?C ([?one, ?img] @ [?two])) =
           [''one.pdf - Page 1'', ''photo.png'', ''two.pdf - Pages 1-2'', ''two.pdf - Page 3'']"
    by code_simp
  have e: "errors (process_uploads example_pil ''High'' ''High'' [?one, ?img]) @
           reported (pdf_to_images example_pil ?bad ''High'' ''High'') @
           errors (process_uploads example_pil ''High'' ''High'' [?two]) =
           [''Error processing PDF bad.pdf: cannot render page'']"
    by code_simp
  show ?thesis
    using h1 h2 h3 h4 h5 none unfolding imgs caps errs d c e by simp
qed

text \<open>
  C7: the claim fails on the code. A three-page document whose third page cannot be
  rendered leaves \<open>pdf_to_images\<close>, and \<open>pdf_to_images\<close> of
  \<^verbatim>\<open>fix_rgba_filedata_error.py\<close>, through the exception handler with the handle still
  open; the same documents without the bad page are closed.
\<close>

theorem abort_leaves_handle_open:
  "handle (pdf_to_images example_pil
     (pdf_upload ''scan.pdf'' [plain_page 20 30, plain_page 20 30, broken_page])
     ''High'' ''High'') = Open \<and>
   handle (pdf_to_images_fix example_pil
     (pdf_upload ''scan.pdf'' [plain_page 20 30, plain_page 20 30, broken_page])
     ''High'') = Open \<and>
   handle (pdf_to_images example_pil
     (pdf_upload ''scan.pdf'' [plain_page 20 30, plain_page 20 30])
     ''High'' ''High'') = Closed \<and>
   handle (pdf_to_images_fix example_pil
     (pdf_upload ''scan.pdf'' [plain_page 20 30, plain_page 20 30])
     ''High'') = Closed"
  by code_simp

lemma caption_single: "caption file_name s (s + 1) = file_name @ '' - Page '' @ str_nat (s + 1)"
  by (simp add: caption_def Let_def)

lemma caption_range:
  "e \<noteq> s + 1 \<Longrightarrow>
   caption file_name s e = file_name @ '' - Pages '' @ str_nat (s + 1) @ ''-'' @ str_nat e"
  by (simp add: caption_def Let_def)

lemma process_page_fix_appended:
  assumes "process_page_fix lib file_name doc z k acc = Inr acc'"
  shows "acc' = (fst acc @ [\<lparr>encoded = rendered doc z k, jpeg_quality = 95\<rparr>],
                snd acc @ [file_name @ '' - Page '' @ str_nat (k + 1)])"
  using assms
  by (auto simp: process_page_fix_def load_page_def save_jpeg_def split: sum.splits if_splits)

lemma process_page_fix_ok:
  assumes "k < length doc" and "get_pixmap (doc ! k) z = Inr pix"
    and "jpeg_accepts lib (rendered doc z k)"
  shows "process_page_fix lib file_name doc z k acc =
           Inr (fst acc @ [\<lparr>encoded = rendered doc z k, jpeg_quality = 95\<rparr>],
                snd acc @ [file_name @ '' - Page '' @ str_nat (k + 1)])"
  using assms by (simp add: process_page_fix_def load_page_def save_jpeg_def)

text \<open>The output of \<open>pdf_to_images\<close> of \<^verbatim>\<open>fix_rgba_filedata_error.py\<close>.\<close>

lemma pdf_to_images_fix_output:
  assumes opened: "pdf_open f = Inr doc" and z: "get_zoom_factor_fix quality = Inr z"
  shows "reported (pdf_to_images_fix lib f quality) = [] \<Longrightarrow>
           out_images (pdf_to_images_fix lib f quality) =
             map (\<lambda>k. \<lparr>encoded = rendered doc z k, jpeg_quality = 95\<rparr>) [0..<length doc] \<and>
           out_captions (pdf_to_images_fix lib f quality) =
             map (\<lambda>k. name f @ '' - Page '' @ str_nat (k + 1)) [0..<length doc]"
    and "reported (pdf_to_images_fix lib f quality) \<noteq> [] \<Longrightarrow>
           out_images (pdf_to_images_fix lib f quality) = [] \<and>
           out_captions (pdf_to_images_fix lib f quality) = []"
    and "\<forall>k < length doc. \<exists>pix. get_pixmap (doc ! k) z = Inr pix \<Longrightarrow>
         \<forall>k < length doc. jpeg_accepts lib (rendered doc z k) \<Longrightarrow>
           reported (pdf_to_images_fix lib f quality) = []"
proof -
  let ?f = "\<lambda>k. \<lparr>encoded = rendered doc z k, jpeg_quality = 95\<rparr>"
  let ?g = "\<lambda>k. name f @ '' - Page '' @ str_nat (k + 1)"
  let ?loop = "for_loop (process_page_fix lib (name f) doc z) [0..<length doc] ([], [])"
  have conv: "pdf_to_images_fix lib f quality =
        (case ?loop of
           Inl e \<Rightarrow> \<lparr>out_images = [], out_captions = [],
                     reported = [''Error processing PDF: '' @ str_exn e], handle = Open\<rparr>
         | Inr (images, captions) \<Rightarrow>
             \<lparr>out_images = images, out_captions = captions, reported = [],
              handle = Closed\<rparr>)"
    using opened z by (simp add: pdf_to_images_fix_def)
  have step: "\<And>x acc acc'. x \<in> set [0..<length doc] \<Longrightarrow>
          process_page_fix lib (name f) doc z x acc = Inr acc' \<Longrightarrow>
          acc' = (fst acc @ [?f x], snd acc @ [?g x])"
    by (rule process_page_fix_appended)
  show "out_images (pdf_to_images_fix lib f quality) = map ?f [0..<length doc] \<and>
        out_captions (pdf_to_images_fix lib f quality) = map ?g [0..<length doc]"
    if "reported (pdf_to_images_fix lib f quality) = []"
  proof (cases ?loop)
    case (Inl e)
    then show ?thesis using that by (simp add: conv)
  next
    case (Inr r)
    from for_loop_collected [of "[0..<length doc]" "process_page_fix lib (name f) doc z"
        ?f ?g "([], [])" r, OF step Inr]
    have "r = (map ?f [0..<length doc], map ?g [0..<length doc])" by simp
    then show ?thesis using Inr by (simp add: conv)
  qed
  show "out_images (pdf_to_images_fix lib f quality) = [] \<and>
        out_captions (pdf_to_images_fix lib f quality) = []"
    if "reported (pdf_to_images_fix lib f quality) \<noteq> []"
    using that by (cases ?loop) (auto simp: conv)
  show "reported (pdf_to_images_fix lib f quality) = []"
    if pages: "\<forall>k < length doc. \<exists>pix. get_pixmap (doc ! k) z = Inr pix"
      and enc: "\<forall>k < length doc. jpeg_accepts lib (rendered doc z k)"
  proof -
    have body: "\<And>x acc. x \<in> set [0..<length doc] \<Longrightarrow>
            process_page_fix lib (name f) doc z x acc =
            Inr (fst acc @ [?f x], snd acc @ [?g x])"
    proof -
      fix x acc
      assume "x \<in> set [0..<length doc]"
      then have x: "x < length doc" by simp
      then obtain pix where "get_pixmap (doc ! x) z = Inr pix" using pages by blast
      with x enc show "process_page_fix lib (name f) doc z x acc =
            Inr (fst acc @ [?f x], snd acc @ [?g x])"
        by (intro process_page_fix_ok) auto
    qed
    have "?loop = Inr (map ?f [0..<length doc], map ?g [0..<length doc])"
      using for_loop_collect [of "[0..<length doc]" "process_page_fix lib (name f) doc z"
          ?f ?g "([], [])", OF body]
      by simp
    then show ?thesis by (simp add: conv)
  qed
qed

text \<open>
  C6. For a document that opens, whenever \<open>pdf_to_images\<close> reports no error it returns
  one caption per page group, in order, and the caption of the group with 0-indexed
  span \<open>[start, end)\<close> is the document name, \<open>" - "\<close>, and \<open>Page start+1\<close> when the group
  holds one page, \<open>Pages start+1-end\<close> when it holds more; no group is empty. When it
  reports an error it returns no caption. It reports no error when every page renders
  and the encoder accepts the composite of each group. \<open>pdf_to_images\<close> of
  \<^verbatim>\<open>fix_rgba_filedata_error.py\<close> has one single-page group per page and captions it
  \<open>Page k+1\<close>, on the same terms.
\<close>

theorem page_group_captions:
  assumes "pdf_open f = Inr doc"
  shows "(\<forall>quality pdf_quality z p.
            get_zoom_factor quality = Inr z \<longrightarrow>
            get_pages_per_image pdf_quality = Inr p \<longrightarrow>
            (\<exists>gs. page_groups (length doc) p = Inr gs \<and>
                  (\<forall>(s, e) \<in> set gs. s < e \<and> e \<le> length doc) \<and>
                  (reported (pdf_to_images lib f quality pdf_quality) = [] \<longrightarrow>
                     out_captions (pdf_to_images lib f quality pdf_quality) =
                       map (\<lambda>(s, e). caption (name f) s e) gs \<and>
                     length (out_images (pdf_to_images lib f quality pdf_quality)) =
                       length gs) \<and>
                  (reported (pdf_to_images lib f quality pdf_quality) \<noteq> [] \<longrightarrow>
                     out_captions (pdf_to_images lib f quality pdf_quality) = [] \<and>
                     out_images (pdf_to_images lib f quality pdf_quality) = []) \<and>
                  ((\<forall>k < length doc. \<exists>pix. get_pixmap (doc ! k) z = Inr pix) \<longrightarrow>
                   (\<forall>se \<in> set gs. jpeg_accepts lib (encoded (group_payload lib doc z se))) \<longrightarrow>
                     reported (pdf_to_images lib f quality pdf_quality) = []))) \<and>
         (\<forall>quality z.
            get_zoom_factor_fix quality = Inr z \<longrightarrow>
            (reported (pdf_to_images_fix lib f quality) = [] \<longrightarrow>
               out_captions (pdf_to_images_fix lib f quality) =
                 map (\<lambda>k. caption (name f) k (k + 1)) [0..<length doc] \<and>
               length (out_images (pdf_to_images_fix lib f quality)) = length doc) \<and>
            (reported (pdf_to_images_fix lib f quality) \<noteq> [] \<longrightarrow>
               out_captions (pdf_to_images_fix lib f quality) = [] \<and>
               out_images (pdf_to_images_fix lib f quality) = []) \<and>
            ((\<forall>k < length doc. \<exists>pix. get_pixmap (doc ! k) z = Inr pix) \<longrightarrow>
             (\<forall>k < length doc. jpeg_accepts lib (rendered doc z k)) \<longrightarrow>
               reported (pdf_to_images_fix lib f quality) = [])) \<and>
         (\<forall>s e. e = s + 1 \<longrightarrow>
            caption (name f) s e = name f @ '' - Page '' @ str_nat (s + 1)) \<and>
         (\<forall>s e. s + 1 < e \<longrightarrow>
            caption (name f) s e =
              name f @ '' - Pages '' @ str_nat (s + 1) @ ''-'' @ str_nat e)"
proof -
  have main: "\<exists>gs. page_groups (length doc) p = Inr gs \<and>
                  (\<forall>(s, e) \<in> set gs. s < e \<and> e \<le> length doc) \<and>
                  (reported (pdf_to_images lib f quality pdf_quality) = [] \<longrightarrow>
                     out_captions (pdf_to_images lib f quality pdf_quality) =
                       map (\<lambda>(s, e). caption (name f) s e) gs \<and>
                     length (out_images (pdf_to_images lib f quality pdf_quality)) =
                       length gs) \<and>
                  (reported (pdf_to_images lib f quality pdf_quality) \<noteq> [] \<longrightarrow>
                     out_captions (pdf_to_images lib f quality pdf_quality) = [] \<and>
                     out_images (pdf_to_images lib f quality pdf_quality) = []) \<and>
                  ((\<forall>k < length doc. \<exists>pix. get_pixmap (doc ! k) z = Inr pix) \<longrightarrow>
                   (\<forall>se \<in> set gs. jpeg_accepts lib (encoded (group_payload lib doc z se))) \<longrightarrow>
                     reported (pdf_to_images lib f quality pdf_quality) = [])"
    if z: "get_zoom_factor quality = Inr z" and p: "get_pages_per_image pdf_quality = Inr p"
    for quality pdf_quality z p
  proof -
    have pos: "0 < p" using p by (rule pages_per_image_positive)
    define gs where "gs = map (group_bounds p (length doc)) [0..<(length doc + p - 1) div p]"
    have groups: "page_groups (length doc) p = Inr gs"
      using pos by (simp add: page_groups_eq gs_def)
    note out = pdf_to_images_output [where lib = lib, OF assms z p groups]
    have ne: "\<forall>(s, e) \<in> set gs. s < e \<and> e \<le> length doc"
    proof -
      have "fst se < snd se \<and> snd se \<le> length doc" if "se \<in> set gs" for se
      proof -
        from that obtain k where k: "k < (length doc + p - 1) div p"
          and eq: "se = group_bounds p (length doc) k"
          by (auto simp: gs_def)
        have "snd se \<le> length doc" by (simp add: eq group_bounds_def Let_def)
        then show ?thesis using group_bounds_nth(2) [OF pos k] eq by simp
      qed
      then show ?thesis by (auto simp: case_prod_beta)
    qed
    have a: "out_captions (pdf_to_images lib f quality pdf_quality) =
               map (\<lambda>(s, e). caption (name f) s e) gs \<and>
             length (out_images (pdf_to_images lib f quality pdf_quality)) = length gs"
      if "reported (pdf_to_images lib f quality pdf_quality) = []"
      using out(1) [OF that] by simp
    show ?thesis using groups ne a out(2) out(3) by blast
  qed
  have fx: "(reported (pdf_to_images_fix lib f quality) = [] \<longrightarrow>
               out_captions (pdf_to_images_fix lib f quality) =
                 map (\<lambda>k. caption (name f) k (k + 1)) [0..<length doc] \<and>
               length (out_images (pdf_to_images_fix lib f quality)) = length doc) \<and>
            (reported (pdf_to_images_fix lib f quality) \<noteq> [] \<longrightarrow>
               out_captions (pdf_to_images_fix lib f quality) = [] \<and>
               out_images (pdf_to_images_fix lib f quality) = []) \<and>
            ((\<forall>k < length doc. \<exists>pix. get_pixmap (doc ! k) z = Inr pix) \<longrightarrow>
             (\<forall>k < length doc. jpeg_accepts lib (rendered doc z k)) \<longrightarrow>
               reported (pdf_to_images_fix lib f quality) = [])"
    if "get_zoom_factor_fix quality = Inr z" for quality z
  proof -
    note out = pdf_to_images_fix_output [where lib = lib, OF assms that]
    have a: "out_captions (pdf_to_images_fix lib f quality) =
                 map (\<lambda>k. caption (name f) k (k + 1)) [0..<length doc] \<and>
             length (out_images (pdf_to_images_fix lib f quality)) = length doc"
      if "reported (pdf_to_images_fix lib f quality) = []"
      using out(1) [OF that] by (simp only: caption_single) simp
    show ?thesis using a out(2) out(3) by blast
  qed
  have single: "caption (name f) s e = name f @ '' - Page '' @ str_nat (s + 1)"
    if "e = s + 1" for s e
    using that by (simp only: caption_single)
  have range: "caption (name f) s e =
                 name f @ '' - Pages '' @ str_nat (s + 1) @ ''-'' @ str_nat e"
    if "s + 1 < e" for s e
    using that by (intro caption_range) simp
  show ?thesis using main fx single range by blast
qed

theorem page_group_captions_witness:
  "pdf_open (pdf_upload ''doc.pdf'' (replicate 10 (plain_page 20 30))) =
     Inr (replicate 10 (plain_page 20 30)) \<and>
   reported (pdf_to_images example_pil
     (pdf_upload ''doc.pdf'' (replicate 10 (plain_page 20 30))) ''High'' ''Medium'') = [] \<and>
   out_captions (pdf_to_images example_pil
     (pdf_upload ''doc.pdf'' (replicate 10 (plain_page 20 30))) ''High'' ''Medium'') =
     [''doc.pdf - Pages 1-4'', ''doc.pdf - Pages 5-8'', ''doc.pdf - Pages 9-10''] \<and>
   reported (pdf_to_images_fix example_pil
     (pdf_upload ''doc.pdf'' (replicate 10 (plain_page 20 30))) ''High'') = [] \<and>
   out_captions (pdf_to_images_fix example_pil
     (pdf_upload ''doc.pdf'' (replicate 10 (plain_page 20 30))) ''High'') =
     map (\<lambda>k. ''doc.pdf - Page '' @ str_nat (k + 1)) [0..<10] \<and>
   caption ''doc.pdf'' 0 1 = ''doc.pdf - Page 1'' \<and>
   caption ''doc.pdf'' 8 10 = ''doc.pdf - Pages 9-10''"
proof -
  let ?doc = "replicate 10 (plain_page 20 30)"
  let ?f = "pdf_upload ''doc.pdf'' ?doc"
  let ?gs = "[(0, 4), (4, 8), (8, 10)] :: (nat \<times> nat) list"
  have h1: "pdf_open ?f = Inr ?doc" by (simp add: pdf_upload_def)
  have nm: "name ?f = ''doc.pdf''" by (simp add: pdf_upload_def)
  note t = page_group_captions [OF h1, of example_pil, unfolded nm]
  have z: "get_zoom_factor ''High'' = Inr (7 / 10)"
    by (simp add: get_zoom_factor_def zoom_quality_map_def)
  have zf: "get_zoom_factor_fix ''High'' = Inr (5 / 10)"
    by (simp add: get_zoom_factor_fix_def zoom_quality_map_fix_def)
  have p4: "get_pages_per_image ''Medium'' = Inr 4"
    by (simp add: get_pages_per_image_def pages_quality_map_def)
  have pages: "\<forall>k < length ?doc. \<exists>pix. get_pixmap (?doc ! k) z' = Inr pix" for z'
    by (simp add: plain_page_def)
  have g4: "page_groups (length ?doc) 4 = Inr ?gs" by code_simp
  from t [THEN conjunct1, rule_format, OF z p4] g4
  have m: "(reported (pdf_to_images example_pil ?f ''High'' ''Medium'') = [] \<longrightarrow>
              out_captions (pdf_to_images example_pil ?f ''High'' ''Medium'') =
                map (\<lambda>(s, e). caption ''doc.pdf'' s e) ?gs)"
    and ok: "(\<forall>k < length ?doc. \<exists>pix. get_pixmap (?doc ! k) (7 / 10) = Inr pix) \<longrightarrow>
             (\<forall>se \<in> set ?gs. jpeg_accepts example_pil
                (encoded (group_payload example_pil ?doc (7 / 10) se))) \<longrightarrow>
             reported (pdf_to_images example_pil ?f ''High'' ''Medium'') = []"
    by auto
  have enc: "\<forall>se \<in> set ?gs. jpeg_accepts example_pil
               (encoded (group_payload example_pil ?doc (7 / 10) se))"
    by code_simp
  have r: "reported (pdf_to_images example_pil ?f ''High'' ''Medium'') = []"
    using ok pages enc by blast
  have c4: "out_captions (pdf_to_images example_pil ?f ''High'' ''Medium'') =
            map (\<lambda>(s, e). caption ''doc.pdf'' s e) ?gs"
    using m r by blast
  note tf = t [THEN conjunct2, THEN conjunct1, rule_format, OF zf]
  have encf: "\<forall>k < length ?doc. jpeg_accepts example_pil (rendered ?doc (5 / 10) k)"
    by (simp add: example_pil_def plain_page_def frombytes_RGB_def)
  have rf: "reported (pdf_to_images_fix example_pil ?f ''High'') = []"
    using tf pages encf by blast
  have cf: "out_captions (pdf_to_images_fix example_pil ?f ''High'') =
            map (\<lambda>k. caption ''doc.pdf'' k (k + 1)) [0..<length ?doc]"
    using tf rf by blast
  have single: "caption ''doc.pdf'' s (s + 1) = ''doc.pdf - Page '' @ str_nat (s + 1)" for s
    using t [THEN conjunct2, THEN conjunct2, THEN conjunct1, rule_format, of "s + 1" s]
    by simp
  have range: "caption ''doc.pdf'' s e = ''doc.pdf - Pages '' @ str_nat (s + 1) @ ''-'' @ str_nat e"
    if "s + 1 < e" for s e
    using t [THEN conjunct2, THEN conjunct2, THEN conjunct2, rule_format, OF that]
    by simp
  have s1: "str_nat 1 = ''1''" "str_nat 4 = ''4''" "str_nat 5 = ''5''" "str_nat 8 = ''8''"
    "str_nat 9 = ''9''" "str_nat 10 = ''10''"
    by code_simp+
  have r1: "caption ''doc.pdf'' 0 4 = ''doc.pdf - Pages 1-4''"
    using range [of 0 4] s1 by simp
  have r2: "caption ''doc.pdf'' 4 8 = ''doc.pdf - Pages 5-8''"
    using range [of 4 8] s1 by simp
  have r3: "caption ''doc.pdf'' 8 10 = ''doc.pdf - Pages 9-10''"
    using range [of 8 10] s1 by simp
  have r0: "caption ''doc.pdf'' 0 1 = ''doc.pdf - Page 1''"
    using single [of 0] s1 by simp
  have cf': "out_captions (pdf_to_images_fix example_pil ?f ''High'') =
            map (\<lambda>k. ''doc.pdf - Page '' @ str_nat (k + 1)) [0..<10]"
    unfolding cf by (simp only: single) simp
  show ?thesis
    using h1 r c4 rf cf' r0 r1 r2 r3 by simp
qed

section \<open>Properties of the image pipeline\<close>

lemma normalize_color_geometry:
  "mode (normalize_color lib img) = ''RGB''"
  "width (normalize_color lib img) = width img"
  "height (normalize_color lib img) = height img"
  by (simp_all add: normalize_color_def Let_def paste_mask_def Image_new_def convert_def)

lemma normalize_color_alpha:
  assumes "has_alpha img"
  shows "pixel_at (normalize_color lib img) x y =
           (if x < width img \<and> y < height img
            then (let src = (if mode img = ''P'' then convert lib img ''RGBA'' else img)
                  in blend_pixel lib (last (pixel_at src x y)) white
                       (convert_pixel lib src ''RGB'' x y))
            else white)"
proof -
  define src where "src = (if mode img = ''P'' then convert lib img ''RGBA'' else img)"
  have m: "mode src \<noteq> ''RGB''"
    using assms by (auto simp: src_def has_alpha_def convert_def)
  have g: "width src = width img" "height src = height img"
    by (simp_all add: src_def convert_def)
  have "normalize_color lib img =
        paste_mask lib (Image_new ''RGB'' (width img, height img) white) src (split_last src)"
    using assms by (simp add: normalize_color_def Let_def src_def)
  then show ?thesis
    using m g
    by (simp add: paste_mask_def Image_new_def split_last_def source_pixel_def Let_def
        src_def [symmetric])
qed

text \<open>
  C5. Whatever the opened image, the result of the normalisation has mode \<open>RGB\<close> and the
  width and height of the input. When the input has mode \<open>RGBA\<close> or \<open>LA\<close>, or mode \<open>P\<close>
  with a transparency entry, each pixel of the result is the blend of white with the
  input's colour there, under the input's last band (its alpha) as the mask; a \<open>P\<close> image
  is converted to \<open>RGBA\<close> first. Otherwise an image that is not \<open>RGB\<close> is converted to
  \<open>RGB\<close> with no compositing, and an \<open>RGB\<close> image is returned as it is.
\<close>

theorem normalize_color_opaque:
  "mode (normalize_color lib img) = ''RGB'' \<and>
   width (normalize_color lib img) = width img \<and>
   height (normalize_color lib img) = height img \<and>
   (has_alpha img \<longleftrightarrow>
      mode img = ''RGBA'' \<or> mode img = ''LA'' \<or> (mode img = ''P'' \<and> transparency img)) \<and>
   (has_alpha img \<longrightarrow>
      (\<forall>x < width img. \<forall>y < height img.
         pixel_at (normalize_color lib img) x y =
           (let src = (if mode img = ''P'' then convert lib img ''RGBA'' else img)
            in blend_pixel lib (last (pixel_at src x y)) white
                 (convert_pixel lib src ''RGB'' x y)))) \<and>
   (\<not> has_alpha img \<longrightarrow> mode img \<noteq> ''RGB'' \<longrightarrow>
      normalize_color lib img = convert lib img ''RGB'') \<and>
   (\<not> has_alpha img \<longrightarrow> mode img = ''RGB'' \<longrightarrow> normalize_color lib img = img)"
proof -
  have a: "has_alpha img \<longleftrightarrow>
      mode img = ''RGBA'' \<or> mode img = ''LA'' \<or> (mode img = ''P'' \<and> transparency img)"
    by (auto simp: has_alpha_def)
  have b: "pixel_at (normalize_color lib img) x y =
           (let src = (if mode img = ''P'' then convert lib img ''RGBA'' else img)
            in blend_pixel lib (last (pixel_at src x y)) white
                 (convert_pixel lib src ''RGB'' x y))"
    if "has_alpha img" "x < width img" "y < height img" for x y
    using normalize_color_alpha [OF that(1), of lib x y] that(2,3) by simp
  have c: "normalize_color lib img = convert lib img ''RGB''"
    if "\<not> has_alpha img" "mode img \<noteq> ''RGB''"
    using that by (simp add: normalize_color_def)
  have d: "normalize_color lib img = img" if "\<not> has_alpha img" "mode img = ''RGB''"
    using that by (simp add: normalize_color_def)
  show ?thesis
    using normalize_color_geometry [of lib img] a b c d by blast
qed

theorem normalize_color_opaque_witness:
  "mode (normalize_color example_pil (plain_image ''RGBA'' 2 2 [10, 20, 30, 0])) = ''RGB'' \<and>
   width (normalize_color example_pil (plain_image ''RGBA'' 2 2 [10, 20, 30, 0])) = 2 \<and>
   height (normalize_color example_pil (plain_image ''RGBA'' 2 2 [10, 20, 30, 0])) = 2 \<and>
   has_alpha (plain_image ''RGBA'' 2 2 [10, 20, 30, 0]) \<and>
   pixel_at (normalize_color example_pil (plain_image ''RGBA'' 2 2 [10, 20, 30, 0])) 1 1 = white \<and>
   \<not> has_alpha (plain_image ''L'' 2 2 [7]) \<and>
   normalize_color example_pil (plain_image ''L'' 2 2 [7]) =
     convert example_pil (plain_image ''L'' 2 2 [7]) ''RGB''"
proof -
  let ?a = "plain_image ''RGBA'' 2 2 [10, 20, 30, 0]"
  let ?l = "plain_image ''L'' 2 2 [7]"
  note ta = normalize_color_opaque [of example_pil ?a]
  note tl = normalize_color_opaque [of example_pil ?l]
  have ha: "has_alpha ?a" using ta by (simp add: plain_image_def)
  have hl: "\<not> has_alpha ?l" using tl by (simp add: plain_image_def)
  have px: "pixel_at (normalize_color example_pil ?a) 1 1 =
            blend_pixel example_pil (last (pixel_at ?a 1 1)) white
              (convert_pixel example_pil ?a ''RGB'' 1 1)"
    using ta ha by (simp add: plain_image_def)
  have "blend_pixel example_pil (last (pixel_at ?a 1 1)) white
          (convert_pixel example_pil ?a ''RGB'' 1 1) = white"
    by (simp add: example_pil_def plain_image_def white_def)
  with px have p: "pixel_at (normalize_color example_pil ?a) 1 1 = white" by simp
  have cl: "normalize_color example_pil ?l = convert example_pil ?l ''RGB''"
    using tl hl by (simp add: plain_image_def)
  have g: "mode (normalize_color example_pil ?a) = ''RGB''"
    "width (normalize_color example_pil ?a) = 2" "height (normalize_color example_pil ?a) = 2"
    using ta by (simp_all add: plain_image_def)
  show ?thesis using g ha p hl cl by simp
qed

text \<open>
  C9. An image of mode \<open>RGB\<close> goes through the normalisation unchanged: it is returned
  as it is, whatever its \<open>info\<close> holds. Hence normalising twice is normalising once.
\<close>

theorem normalize_color_idempotent:
  "(mode img = ''RGB'' \<longrightarrow> \<not> has_alpha img \<and> normalize_color lib img = img) \<and>
   normalize_color lib (normalize_color lib img) = normalize_color lib img"
proof -
  have rgb: "\<not> has_alpha im \<and> normalize_color lib im = im" if "mode im = ''RGB''" for im
    using that by (simp add: normalize_color_def has_alpha_def)
  have "mode (normalize_color lib img) = ''RGB''" by (rule normalize_color_geometry)
  then have "normalize_color lib (normalize_color lib img) = normalize_color lib img"
    using rgb by blast
  then show ?thesis using rgb by blast
qed

theorem normalize_color_idempotent_witness:
  "mode (plain_image ''RGB'' 3 2 [9, 8, 7]) = ''RGB'' \<and>
   normalize_color example_pil (plain_image ''RGB'' 3 2 [9, 8, 7]) =
     plain_image ''RGB'' 3 2 [9, 8, 7] \<and>
   pixel_at (normalize_color example_pil (plain_image ''RGB'' 3 2 [9, 8, 7])) 2 1 = [9, 8, 7]"
proof -
  have m: "mode (plain_image ''RGB'' 3 2 [9, 8, 7]) = ''RGB''" by (simp add: plain_image_def)
  from normalize_color_idempotent [of "plain_image ''RGB'' 3 2 [9, 8, 7]" example_pil] m
  have e: "normalize_color example_pil (plain_image ''RGB'' 3 2 [9, 8, 7]) =
           plain_image ''RGB'' 3 2 [9, 8, 7]"
    by blast
  show ?thesis using m e by (simp add: plain_image_def)
qed

lemma process_image_with_max:
  assumes "image_open f = Inr img"
  shows "process_image_with zoom_of lib f ''Very High'' = save_jpeg lib (normalize_color lib img) 95"
  using assms by (simp add: process_image_with_def Let_def)

lemma process_image_with_lower:
  assumes "image_open f = Inr img" and "quality \<noteq> ''Very High''" and "zoom_of quality = Inr z"
  shows "process_image_with zoom_of lib f quality =
           (case resize lib (normalize_color lib img)
                   (double_mul_int (width img) z, double_mul_int (height img) z) of
              Inl e \<Rightarrow> Inl e
            | Inr resized_img \<Rightarrow> save_jpeg lib resized_img 95)"
  using assms by (simp add: process_image_with_def Let_def normalize_color_geometry)

text \<open>
  C8. For an image that opens, at "Very High" the image handed to the JPEG encoder is
  the colour-normalised input itself, with no resampling, so the output has the
  input's width and height; that output is produced whenever the encoder accepts that
  image. At any other level with zoom factor \<open>z\<close>, an output is the normalised input
  resampled to width \<open>int(width * z)\<close> and height \<open>int(height * z)\<close>, the products
  taken in double precision and truncated, the same factor on both sides; it is
  produced whenever \<open>resize\<close> accepts that size and the encoder accepts the resampled
  image. This holds for \<open>process_image\<close> of both files, each with its own zoom table.
\<close>

theorem process_image_dimensions:
  assumes "image_open f = Inr img"
    and "zoom_of = get_zoom_factor \<and> pimage = process_image \<or>
         zoom_of = get_zoom_factor_fix \<and> pimage = process_image_fix"
  shows "(\<forall>j. pimage lib f ''Very High'' = Inr j \<longrightarrow>
            encoded j = normalize_color lib img \<and>
            width (encoded j) = width img \<and> height (encoded j) = height img) \<and>
         (jpeg_accepts lib (normalize_color lib img) \<longrightarrow>
            pimage lib f ''Very High'' =
              Inr \<lparr>encoded = normalize_color lib img, jpeg_quality = 95\<rparr>) \<and>
         (\<forall>quality z.
            quality \<noteq> ''Very High'' \<longrightarrow> zoom_of quality = Inr z \<longrightarrow>
            (\<forall>j. pimage lib f quality = Inr j \<longrightarrow>
               width (encoded j) = double_mul_int (width img) z \<and>
               height (encoded j) = double_mul_int (height img) z \<and>
               mode (encoded j) = ''RGB'' \<and>
               pixel_at (encoded j) =
                 resample_pixel lib (normalize_color lib img)
                   (double_mul_int (width img) z, double_mul_int (height img) z) \<and>
               jpeg_quality j = 95) \<and>
            (resize_accepts lib (normalize_color lib img)
               (double_mul_int (width img) z, double_mul_int (height img) z) \<longrightarrow>
             jpeg_accepts lib
               \<lparr>mode = ''RGB'', width = double_mul_int (width img) z,
                height = double_mul_int (height img) z,
                pixel_at = resample_pixel lib (normalize_color lib img)
                  (double_mul_int (width img) z, double_mul_int (height img) z),
                transparency = transparency (normalize_color lib img)\<rparr> \<longrightarrow>
             (\<exists>j. pimage lib f quality = Inr j)))"
proof -
  let ?N = "normalize_color lib img"
  have pimage: "pimage = process_image_with zoom_of"
    using assms(2) by (auto simp: process_image_def process_image_fix_def)
  have a: "encoded j = ?N \<and> width (encoded j) = width img \<and> height (encoded j) = height img"
    if "pimage lib f ''Very High'' = Inr j" for j
  proof -
    have "save_jpeg lib ?N 95 = Inr j"
      using that process_image_with_max [OF assms(1)] by (simp add: pimage)
    then have "encoded j = ?N"
      by (auto simp: save_jpeg_def split: if_splits)
    then show ?thesis by (simp add: normalize_color_geometry)
  qed
  have b: "pimage lib f ''Very High'' = Inr \<lparr>encoded = ?N, jpeg_quality = 95\<rparr>"
    if "jpeg_accepts lib ?N"
    using that process_image_with_max [OF assms(1)] by (simp add: pimage save_jpeg_def)
  have c: "width (encoded j) = double_mul_int (width img) z \<and>
           height (encoded j) = double_mul_int (height img) z \<and>
           mode (encoded j) = ''RGB'' \<and>
           pixel_at (encoded j) =
             resample_pixel lib ?N (double_mul_int (width img) z, double_mul_int (height img) z) \<and>
           jpeg_quality j = 95"
    if "quality \<noteq> ''Very High''" "zoom_of quality = Inr z" "pimage lib f quality = Inr j"
    for quality z j
  proof -
    from that(3)
      process_image_with_lower [where zoom_of = zoom_of and lib = lib, OF assms(1) that(1) that(2)]
    obtain resized where
      r: "resize lib ?N (double_mul_int (width img) z, double_mul_int (height img) z) =
            Inr resized"
      and s: "save_jpeg lib resized 95 = Inr j"
      by (auto simp: pimage split: sum.splits)
    from s have "encoded j = resized \<and> jpeg_quality j = 95"
      by (auto simp: save_jpeg_def split: if_splits)
    moreover from r have "width resized = double_mul_int (width img) z \<and>
                          height resized = double_mul_int (height img) z \<and>
                          mode resized = ''RGB'' \<and>
                          pixel_at resized = resample_pixel lib ?N
                            (double_mul_int (width img) z, double_mul_int (height img) z)"
      by (auto simp: resize_def normalize_color_geometry split: if_splits)
    ultimately show ?thesis by simp
  qed
  have d: "\<exists>j. pimage lib f quality = Inr j"
    if "quality \<noteq> ''Very High''" "zoom_of quality = Inr z"
      "resize_accepts lib ?N (double_mul_int (width img) z, double_mul_int (height img) z)"
      "jpeg_accepts lib
         \<lparr>mode = ''RGB'', width = double_mul_int (width img) z,
          height = double_mul_int (height img) z,
          pixel_at = resample_pixel lib ?N
            (double_mul_int (width img) z, double_mul_int (height img) z),
          transparency = transparency ?N\<rparr>"
    for quality z
    using process_image_with_lower [where zoom_of = zoom_of and lib = lib,
        OF assms(1) that(1) that(2)] that(3,4)
    by (simp add: pimage resize_def save_jpeg_def normalize_color_geometry)
  show ?thesis using a b c d by blast
qed

theorem process_image_dimensions_witness:
  "image_open (image_upload ''photo.png'' (plain_image ''RGBA'' 90 40 [1, 2, 3, 255])) =
     Inr (plain_image ''RGBA'' 90 40 [1, 2, 3, 255]) \<and>
   (\<exists>j. process_image example_pil
           (image_upload ''photo.png'' (plain_image ''RGBA'' 90 40 [1, 2, 3, 255]))
           ''Very High'' = Inr j \<and>
         width (encoded j) = 90 \<and> height (encoded j) = 40) \<and>
   get_zoom_factor ''High'' = Inr (7 / 10) \<and>
   double_mul_int 90 (7 / 10) = 62 \<and> double_mul_int 40 (7 / 10) = 28 \<and>
   (\<exists>j. process_image example_pil
           (image_upload ''photo.png'' (plain_image ''RGBA'' 90 40 [1, 2, 3, 255]))
           ''High'' = Inr j \<and>
         width (encoded j) = 62 \<and> height (encoded j) = 28) \<and>
   get_zoom_factor_fix ''High'' = Inr (5 / 10) \<and>
   double_mul_int 90 (5 / 10) = 45 \<and> double_mul_int 40 (5 / 10) = 20 \<and>
   (\<exists>j. process_image_fix example_pil
           (image_upload ''photo.png'' (plain_image ''RGBA'' 90 40 [1, 2, 3, 255]))
           ''High'' = Inr j \<and>
         width (encoded j) = 45 \<and> height (encoded j) = 20)"
proof -
  let ?img = "plain_image ''RGBA'' 90 40 [1, 2, 3, 255]"
  let ?f = "image_upload ''photo.png'' ?img"
  let ?lib = "example_pil"
  have h: "image_open ?f = Inr ?img" by (simp add: image_upload_def)
  have wh: "width ?img = 90" "height ?img = 40" by (simp_all add: plain_image_def)
  have ne: "''High'' \<noteq> ''Very High''" by simp
  have z: "get_zoom_factor ''High'' = Inr (7 / 10)"
    by (simp add: get_zoom_factor_def zoom_quality_map_def)
  have zf: "get_zoom_factor_fix ''High'' = Inr (5 / 10)"
    by (simp add: get_zoom_factor_fix_def zoom_quality_map_fix_def)
  have m1: "double_mul_int 90 (7 / 10) = 62" "double_mul_int 40 (7 / 10) = 28"
    "double_mul_int 90 (5 / 10) = 45" "double_mul_int 40 (5 / 10) = 20"
    by code_simp+
  have d1: "get_zoom_factor = get_zoom_factor \<and> process_image = process_image \<or>
            get_zoom_factor = get_zoom_factor_fix \<and> process_image = process_image_fix"
    by simp
  have d2: "get_zoom_factor_fix = get_zoom_factor \<and> process_image_fix = process_image \<or>
            get_zoom_factor_fix = get_zoom_factor_fix \<and> process_image_fix = process_image_fix"
    by simp
  note t1 = process_image_dimensions [OF h d1, of ?lib, unfolded wh]
  note t2 = process_image_dimensions [OF h d2, of ?lib, unfolded wh]
  note l1 = t1 [THEN conjunct2, THEN conjunct2, rule_format, OF ne z, unfolded m1]
  note l2 = t2 [THEN conjunct2, THEN conjunct2, rule_format, OF ne zf, unfolded m1]
  have acc: "jpeg_accepts ?lib (normalize_color ?lib ?img)"
    by (simp add: example_pil_def normalize_color_geometry plain_image_def)
  have ra: "resize_accepts ?lib im (62, 28)" "resize_accepts ?lib im (45, 20)" for im
    by (simp_all add: example_pil_def)
  have ja: "jpeg_accepts ?lib \<lparr>mode = m, width = 62, height = 28, pixel_at = px,
              transparency = tr\<rparr>"
    "jpeg_accepts ?lib \<lparr>mode = m, width = 45, height = 20, pixel_at = px,
              transparency = tr\<rparr>" for m px tr
    by (simp_all add: example_pil_def)
  have a: "\<exists>j. process_image ?lib ?f ''Very High'' = Inr j \<and>
               width (encoded j) = 90 \<and> height (encoded j) = 40"
    using t1 acc by blast
  have b: "\<exists>j. process_image ?lib ?f ''High'' = Inr j \<and>
               width (encoded j) = 62 \<and> height (encoded j) = 28"
  proof -
    from l1 [THEN conjunct2] ra(1) ja(1) obtain j where j: "process_image ?lib ?f ''High'' = Inr j"
      by blast
    from l1 [THEN conjunct1, rule_format, OF j] j show ?thesis by blast
  qed
  have c: "\<exists>j. process_image_fix ?lib ?f ''High'' = Inr j \<and>
               width (encoded j) = 45 \<and> height (encoded j) = 20"
  proof -
    from l2 [THEN conjunct2] ra(2) ja(2) obtain j where j: "process_image_fix ?lib ?f ''High'' = Inr j"
      by blast
    from l2 [THEN conjunct1, rule_format, OF j] j show ?thesis by blast
  qed
  show ?thesis using h a z m1 b zf c by blast
qed


end
